theory Spec2Isabelle
  imports Main "HOL-Library.Sublist"
begin

section \<open>The Liquid template lexer (\<^verbatim>\<open>ext/src/lex.cpp\<close>, \<^verbatim>\<open>lex.h\<close>, \<^verbatim>\<open>strings.h\<close>)\<close>

text \<open>
  Strings are \<^verbatim>\<open>std::string\<close>, that is byte sequences: \<^typ>\<open>string\<close>.
  Offsets into the source and the line counter are modelled as \<^typ>\<open>nat\<close>: the code keeps
  them in \<^verbatim>\<open>int\<close> and \<^verbatim>\<open>unsigned int\<close> variables, and every conversion
  between those and the iterator distance is exact for a source shorter than \<open>2^31\<close> bytes, which is
  the range this development covers.
\<close>

subsection \<open>\<^verbatim>\<open>strings.h\<close>\<close>

definition notspace :: "char \<Rightarrow> bool" where
  "notspace ch =
     (if ch = CHR 0x0A \<or> ch = CHR '' '' \<or> ch = CHR 0x09 \<or> ch = CHR 0x0D then False else True)"

text \<open>\<^verbatim>\<open>std::find_if\<close> over a range: the index of the first element satisfying the
  predicate, the length of the range when there is none.\<close>

fun find_if :: "('a \<Rightarrow> bool) \<Rightarrow> 'a list \<Rightarrow> nat" where
  "find_if p [] = 0"
| "find_if p (x # xs) = (if p x then 0 else Suc (find_if p xs))"

text \<open>\<^verbatim>\<open>lstrip\<close> erases \<open>[begin, end)\<close> where \<open>end\<close> is the first non-space.\<close>

definition lstrip :: "string \<Rightarrow> string" where
  "lstrip s = (let end = find_if notspace s in drop end s)"

text \<open>\<^verbatim>\<open>rstrip\<close> searches the reversed range; \<^verbatim>\<open>base()\<close> of the reverse iterator found
  is the position just after the last non-space, and everything from there on is erased.\<close>

definition rstrip :: "string \<Rightarrow> string" where
  "rstrip s = (let start = length s - find_if notspace (rev s) in take start s)"

definition strip :: "string \<Rightarrow> string" where
  "strip s = rstrip (lstrip s)"

subsection \<open>Regular expressions of the lexer\<close>

text \<open>
  The patterns of the lexer are sequences of single-character atoms, each taken once, optionally
  (\<^verbatim>\<open>?\<close>) or any number of times (\<^verbatim>\<open>*\<close>), joined by at most one level of
  alternation (\<^verbatim>\<open>|\<close>). \<^verbatim>\<open>std::regex\<close> reads them with the ECMAScript grammar:
  quantifiers are greedy, an earlier alternative has priority, and the matcher backtracks.
\<close>

datatype atom =
    Chr char              \<comment> \<open>an ordinary (or escaped) character\<close>
  | Space                 \<comment> \<open>\<^verbatim>\<open>\s\<close>\<close>
  | Bracket "char list"   \<comment> \<open>a bracket expression \<^verbatim>\<open>[...]\<close>\<close>

datatype quantifier = Once | Optional | Many

type_synonym regex_term = "atom \<times> quantifier"
type_synonym alternative = "regex_term list"
type_synonym regex = "alternative list"

text \<open>\<^verbatim>\<open>\s\<close> is the \<^verbatim>\<open>space\<close> class of the classic locale: space, and the five
  characters from horizontal tab (9) to carriage return (13).\<close>

definition isspace :: "char \<Rightarrow> bool" where
  "isspace c = (c = CHR '' '' \<or> c = CHR 0x09 \<or> c = CHR 0x0A \<or> c = CHR 0x0B \<or> c = CHR 0x0C \<or> c = CHR 0x0D)"

fun atom_matches :: "atom \<Rightarrow> char \<Rightarrow> bool" where
  "atom_matches (Chr c) x = (x = c)"
| "atom_matches Space x = isspace x"
| "atom_matches (Bracket cs) x = (x \<in> set cs)"

text \<open>The length of the match of a sequence of terms at the start of a string, found by
  backtracking: a quantified atom first tries to take a character, and gives it back when the
  rest of the sequence then fails.\<close>

fun match_terms :: "alternative \<Rightarrow> string \<Rightarrow> nat option" where
  "match_terms [] s = Some 0"
| "match_terms ((a, Once) # ts) [] = None"
| "match_terms ((a, Once) # ts) (x # xs) =
     (if atom_matches a x then map_option Suc (match_terms ts xs) else None)"
| "match_terms ((a, Optional) # ts) [] = match_terms ts []"
| "match_terms ((a, Optional) # ts) (x # xs) =
     (if atom_matches a x
      then (case match_terms ts xs of
              Some n \<Rightarrow> Some (Suc n)
            | None \<Rightarrow> match_terms ts (x # xs))
      else match_terms ts (x # xs))"
| "match_terms ((a, Many) # ts) [] = match_terms ts []"
| "match_terms ((a, Many) # ts) (x # xs) =
     (if atom_matches a x
      then (case match_terms ((a, Many) # ts) xs of
              Some n \<Rightarrow> Some (Suc n)
            | None \<Rightarrow> match_terms ts (x # xs))
      else match_terms ts (x # xs))"

text \<open>A pattern matches at the start of a string with its first alternative that does.\<close>

fun match_here :: "regex \<Rightarrow> string \<Rightarrow> nat option" where
  "match_here [] s = None"
| "match_here (alt # alts) s =
     (case match_terms alt s of Some n \<Rightarrow> Some n | None \<Rightarrow> match_here alts s)"

text \<open>\<^verbatim>\<open>std::smatch\<close> after a search: unmatched, or the offset of the match from the start
  of the searched range (the length of \<^verbatim>\<open>prefix()\<close>, \<^verbatim>\<open>position(0)\<close>) and the
  matched text (\<^verbatim>\<open>str(0)\<close>, of length \<^verbatim>\<open>length()\<close>).\<close>

datatype smatch = Unmatched | Matched nat string

text \<open>\<^verbatim>\<open>std::regex_search\<close>: the match at the leftmost offset that has one; the empty
  range at the end is tried too.\<close>

fun shift :: "smatch \<Rightarrow> smatch" where
  "shift Unmatched = Unmatched"
| "shift (Matched p s) = Matched (Suc p) s"

fun regex_search :: "regex \<Rightarrow> string \<Rightarrow> smatch" where
  "regex_search r [] =
     (case match_here r [] of Some n \<Rightarrow> Matched 0 [] | None \<Rightarrow> Unmatched)"
| "regex_search r (x # xs) =
     (case match_here r (x # xs) of
        Some n \<Rightarrow> Matched 0 (take n (x # xs))
      | None \<Rightarrow> shift (regex_search r xs))"

text \<open>\<^verbatim>\<open>match.str(0)\<close>: the empty string for a failed search.\<close>

fun str0 :: "smatch \<Rightarrow> string" where
  "str0 Unmatched = []"
| "str0 (Matched p s) = s"

subsection \<open>\<^verbatim>\<open>lex.h\<close>: tokens and the two fixed patterns\<close>

definition TOKEN_ILLEGAL :: string where "TOKEN_ILLEGAL = ''illegal''"
definition TOKEN_STATEMENT :: string where "TOKEN_STATEMENT = ''statement''"
definition TOKEN_TAG :: string where "TOKEN_TAG = ''tag''"
definition TOKEN_EXPRESSION :: string where "TOKEN_EXPRESSION = ''expression''"
definition TOKEN_LITERAL :: string where "TOKEN_LITERAL = ''literal''"
definition TOKEN_EOF :: string where "TOKEN_EOF = ''eof''"

text \<open>\<^verbatim>\<open>struct Token { unsigned int linenum; std::string type; std::string value; }\<close>\<close>

datatype Token = Token (tok_linenum: nat) (tok_type: string) (tok_value: string)

text \<open>\<^verbatim>\<open>\s*\<close>\<close>

definition re_whitespace :: regex where
  "re_whitespace = [[(Space, Many)]]"

text \<open>\<^verbatim>\<open>\{%-?\s*endraw\s*-?%}\<close>\<close>

definition re_endraw :: regex where
  "re_endraw =
     [[(Chr CHR ''{'', Once), (Chr CHR ''%'', Once), (Chr CHR ''-'', Optional), (Space, Many),
       (Chr CHR ''e'', Once), (Chr CHR ''n'', Once), (Chr CHR ''d'', Once), (Chr CHR ''r'', Once),
       (Chr CHR ''a'', Once), (Chr CHR ''w'', Once),
       (Space, Many), (Chr CHR ''-'', Optional), (Chr CHR ''%'', Once), (Chr CHR ''}'', Once)]]"

subsection \<open>\<^verbatim>\<open>State\<close>: the cursor over the source\<close>

text \<open>The iterator \<^verbatim>\<open>it_\<close> is kept as its distance from \<^verbatim>\<open>begin_\<close>;
  \<^verbatim>\<open>end_\<close> is at distance \<open>length source\<close>.\<close>

record State =
  source :: string
  it :: nat
  linenum :: nat

definition State_init :: "string \<Rightarrow> State" where
  "State_init src = \<lparr>source = src, it = 0, linenum = 1\<rparr>"

definition End :: "State \<Rightarrow> bool" where
  "End st = (it st = length (source st))"

definition Position :: "State \<Rightarrow> nat" where
  "Position st = it st"

text \<open>\<^verbatim>\<open>std::string::substr(pos, n)\<close> and \<^verbatim>\<open>substr(pos)\<close>, for \<open>pos\<close> within the
  string (it throws beyond the end; the cursor never is).\<close>

definition substr :: "string \<Rightarrow> nat \<Rightarrow> nat \<Rightarrow> string" where
  "substr s pos n = take n (drop pos s)"

definition substr_from :: "string \<Rightarrow> nat \<Rightarrow> string" where
  "substr_from s pos = drop pos s"

text \<open>\<^verbatim>\<open>std::string::rfind(str, pos)\<close>: the highest offset not above \<open>pos\<close> at which
  \<open>str\<close> occurs, \<open>None\<close> for \<^verbatim>\<open>npos\<close>. The search starts at
  \<open>min (size - n) pos\<close> and steps down to 0.\<close>

fun rfind_down :: "string \<Rightarrow> string \<Rightarrow> nat \<Rightarrow> nat option" where
  "rfind_down s str 0 = (if take (length str) s = str then Some 0 else None)"
| "rfind_down s str (Suc p) =
     (if take (length str) (drop (Suc p) s) = str then Some (Suc p) else rfind_down s str p)"

definition rfind :: "string \<Rightarrow> string \<Rightarrow> nat \<Rightarrow> nat option" where
  "rfind s str pos =
     (if length str \<le> length s then rfind_down s str (min (length s - length str) pos)
      else None)"

text \<open>\<^verbatim>\<open>State::At\<close> is a member function that is not \<^verbatim>\<open>const\<close>: it is given the
  cursor and returns it with its answer.\<close>

definition At :: "string \<Rightarrow> State \<Rightarrow> bool \<times> State" where
  "At str st = (let pos = Position st in (rfind (source st) str pos = Some pos, st))"

definition count_newlines :: "string \<Rightarrow> nat" where
  "count_newlines s = length (filter (\<lambda>c. c = CHR 0x0A) s)"

definition ReadUntil :: "regex \<Rightarrow> State \<Rightarrow> string \<times> smatch \<times> State" where
  "ReadUntil pattern st =
     (let pos = Position st;
          m = regex_search pattern (drop (it st) (source st))
      in case m of
           Matched prefix_length s \<Rightarrow>
             (let result = substr (source st) pos prefix_length
              in (result, m, st\<lparr>it := it st + prefix_length,
                                 linenum := linenum st + count_newlines result\<rparr>))
         | Unmatched \<Rightarrow>
             (let result = substr_from (source st) pos
              in (result, m, st\<lparr>it := length (source st),
                                 linenum := linenum st + count_newlines result\<rparr>)))"

definition Read :: "regex \<Rightarrow> State \<Rightarrow> string \<times> smatch \<times> State" where
  "Read pattern st =
     (let pos = Position st;
          m = regex_search pattern (drop (it st) (source st))
      in case m of
           Matched p s \<Rightarrow>
             (if p = 0
              then (let result = substr (source st) pos (length s)
                    in (result, m, st\<lparr>it := it st + length s,
                                       linenum := linenum st + count_newlines result\<rparr>))
              else ([], m, st))
         | Unmatched \<Rightarrow> ([], m, st))"

definition EatEnd :: "regex \<Rightarrow> bool \<Rightarrow> State \<Rightarrow> smatch \<times> State" where
  "EatEnd pattern strip_tags st =
     (case Read pattern st of
        (v, m, st1) \<Rightarrow>
          (if strip_tags \<or> CHR ''-'' \<in> set v
           then (case Read re_whitespace st1 of (w, m2, st2) \<Rightarrow> (m2, st2))
           else (m, st1)))"

subsection \<open>\<^verbatim>\<open>Lexer\<close>\<close>

record Lexer =
  statement_start :: string
  statement_end :: string
  tag_start :: string
  tag_end :: string
  strip_tags :: bool
  re_statement_start :: regex
  re_statement_end :: regex
  re_tag_start :: regex
  re_tag_end :: regex
  re_literal_end :: regex
  re_name_end :: regex

text \<open>The constructor taking the four delimiters. Its patterns are the literals
  \<^verbatim>\<open>\{\{-?\s*\<close>, \<^verbatim>\<open>\s*-?}}\<close>, \<^verbatim>\<open>\{%-?\s*\<close>, \<^verbatim>\<open>\s*-?%}\<close>,
  \<^verbatim>\<open>\{[\{%]-?\<close> and \<^verbatim>\<open>\s|-?%}\<close>.\<close>

definition Lexer4 :: "string \<Rightarrow> string \<Rightarrow> string \<Rightarrow> string \<Rightarrow> Lexer" where
  "Lexer4 statement_start' statement_end' tag_start' tag_end' =
     \<lparr>statement_start = statement_start',
      statement_end = statement_end',
      tag_start = tag_start',
      tag_end = tag_end',
      strip_tags = False,
      re_statement_start =
        [[(Chr CHR ''{'', Once), (Chr CHR ''{'', Once), (Chr CHR ''-'', Optional), (Space, Many)]],
      re_statement_end =
        [[(Space, Many), (Chr CHR ''-'', Optional), (Chr CHR ''}'', Once), (Chr CHR ''}'', Once)]],
      re_tag_start =
        [[(Chr CHR ''{'', Once), (Chr CHR ''%'', Once), (Chr CHR ''-'', Optional), (Space, Many)]],
      re_tag_end =
        [[(Space, Many), (Chr CHR ''-'', Optional), (Chr CHR ''%'', Once), (Chr CHR ''}'', Once)]],
      re_literal_end =
        [[(Chr CHR ''{'', Once), (Bracket ''{%'', Once), (Chr CHR ''-'', Optional)]],
      re_name_end =
        [[(Space, Once)],
         [(Chr CHR ''-'', Optional), (Chr CHR ''%'', Once), (Chr CHR ''}'', Once)]]\<rparr>"

text \<open>The default constructor.\<close>

definition Lexer0 :: Lexer where
  "Lexer0 =
     \<lparr>statement_start = ''{{'',
      statement_end = ''}}'',
      tag_start = ''{%'',
      tag_end = ''%}'',
      strip_tags = False,
      re_statement_start =
        [[(Chr CHR ''{'', Once), (Chr CHR ''{'', Once), (Chr CHR ''-'', Optional), (Space, Many)]],
      re_statement_end =
        [[(Space, Many), (Chr CHR ''-'', Optional), (Chr CHR ''}'', Once), (Chr CHR ''}'', Once)]],
      re_tag_start =
        [[(Chr CHR ''{'', Once), (Chr CHR ''%'', Once), (Chr CHR ''-'', Optional), (Space, Many)]],
      re_tag_end =
        [[(Space, Many), (Chr CHR ''-'', Optional), (Chr CHR ''%'', Once), (Chr CHR ''}'', Once)]],
      re_literal_end =
        [[(Chr CHR ''{'', Once), (Bracket ''{%'', Once), (Chr CHR ''-'', Optional)]],
      re_name_end =
        [[(Space, Once)],
         [(Chr CHR ''-'', Optional), (Chr CHR ''%'', Once), (Chr CHR ''}'', Once)]]\<rparr>"

subsection \<open>\<^verbatim>\<open>Lexer::Tokenize\<close>\<close>

text \<open>\<^verbatim>\<open>std::string::back()\<close> requires a non-empty string; on the empty string the
  behaviour is undefined, which the model records as an error.\<close>

datatype error = BackOfEmptyString

definition string_back :: "string \<Rightarrow> error + char" where
  "string_back s = (case s of [] \<Rightarrow> Inl BackOfEmptyString | _ \<Rightarrow> Inr (last s))"

text \<open>The three branches of the loop body; each returns the cursor, the last match and the tokens
  it pushed.\<close>

definition statement_branch :: "Lexer \<Rightarrow> State \<Rightarrow> State \<times> smatch \<times> Token list" where
  "statement_branch lx st =
     (case Read (re_statement_start lx) st of
        (s, m1, st1) \<Rightarrow>
          (let ln = linenum st1 in
           case ReadUntil (re_statement_end lx) st1 of
             (v, m2, st2) \<Rightarrow>
               (case EatEnd (re_statement_end lx) (strip_tags lx) st2 of
                  (m3, st3) \<Rightarrow> (st3, m3, [Token ln TOKEN_STATEMENT v]))))"

definition tag_branch :: "Lexer \<Rightarrow> State \<Rightarrow> State \<times> smatch \<times> Token list" where
  "tag_branch lx st =
     (case Read (re_tag_start lx) st of
        (s, m1, st1) \<Rightarrow>
          (let ln1 = linenum st1 in
           case ReadUntil (re_name_end lx) st1 of
             (name, m2, st2) \<Rightarrow>
               (let tokens1 = [Token ln1 TOKEN_TAG name];
                    ln2 = linenum st2
                in case ReadUntil (re_tag_end lx) st2 of
                     (v, m3, st3) \<Rightarrow>
                       (let v' = strip v;
                            tokens2 = (if v' \<noteq> [] then tokens1 @ [Token ln2 TOKEN_EXPRESSION v']
                                       else tokens1)
                        in case EatEnd (re_tag_end lx) (strip_tags lx) st3 of
                             (m4, st4) \<Rightarrow>
                               (if name = ''raw''
                                then (let ln3 = linenum st4 in
                                      case ReadUntil re_endraw st4 of
                                        (lit, m5, st5) \<Rightarrow>
                                          (st5, m5, tokens2 @ [Token ln3 TOKEN_LITERAL lit]))
                                else (st4, m4, tokens2))))))"

definition literal_branch :: "Lexer \<Rightarrow> State \<Rightarrow> error + State \<times> smatch \<times> Token list" where
  "literal_branch lx st =
     (let ln = linenum st in
      case ReadUntil (re_literal_end lx) st of
        (v, m, st1) \<Rightarrow>
          (case string_back (str0 m) of
             Inl e \<Rightarrow> Inl e
           | Inr c \<Rightarrow>
               (let v' = (if c = CHR ''-'' then rstrip v else v)
                in Inr (st1, m, [Token ln TOKEN_LITERAL v']))))"

text \<open>One iteration of the \<^verbatim>\<open>while\<close> loop, entered with the cursor not at the end.\<close>

definition step :: "Lexer \<Rightarrow> State \<Rightarrow> error + State \<times> smatch \<times> Token list" where
  "step lx st =
     (case At (statement_start lx) st of
        (True, st1) \<Rightarrow> Inr (statement_branch lx st1)
      | (False, st1) \<Rightarrow>
          (case At (tag_start lx) st1 of
             (True, st2) \<Rightarrow> Inr (tag_branch lx st2)
           | (False, st2) \<Rightarrow> literal_branch lx st2))"

text \<open>The loop. It need not end for every lexer, so its result is optional: \<open>None\<close> is a
  loop that runs forever. A result is the error that stopped the run or the token stream.\<close>

partial_function (option) Tokenize_loop ::
  "Lexer \<Rightarrow> State \<Rightarrow> Token list \<Rightarrow> (error + Token list) option" where
  "Tokenize_loop lx st tokens =
     (if End st then Some (Inr (tokens @ [Token (linenum st) TOKEN_EOF []]))
      else (case step lx st of
              Inl e \<Rightarrow> Some (Inl e)
            | Inr (st', m, toks) \<Rightarrow> Tokenize_loop lx st' (tokens @ toks)))"

declare Tokenize_loop.simps [code]

definition Tokenize :: "Lexer \<Rightarrow> string \<Rightarrow> (error + Token list) option" where
  "Tokenize lx src = Tokenize_loop lx (State_init src) []"

text \<open>What the cursor keeps true: the iterator lies within the source, and the line counter is
  one more than the number of newlines before it.\<close>

definition cursor_inv :: "State \<Rightarrow> bool" where
  "cursor_inv st \<longleftrightarrow>
     it st \<le> length (source st) \<and>
     linenum st = 1 + count_newlines (take (it st) (source st))"

text \<open>The cursors with which the loop of \<^verbatim>\<open>Tokenize\<close> starts an iteration or ends: the
  fresh cursor, and the cursor left by an iteration entered away from the end.\<close>

inductive visits :: "Lexer \<Rightarrow> string \<Rightarrow> State \<Rightarrow> bool" for lx :: Lexer and src :: string where
  start: "visits lx src (State_init src)"
| iterate: "visits lx src st \<Longrightarrow> \<not> End st \<Longrightarrow> step lx st = Inr (st', m, toks)
            \<Longrightarrow> visits lx src st'"

text \<open>The texts that \<^verbatim>\<open>re_endraw\<close> matches, written out: \<^verbatim>\<open>{%\<close>, an optional
  \<^verbatim>\<open>-\<close>, whitespace, \<^verbatim>\<open>endraw\<close>, whitespace, an optional \<^verbatim>\<open>-\<close>,
  \<^verbatim>\<open>%}\<close>.\<close>

definition is_endraw :: "string \<Rightarrow> bool" where
  "is_endraw t \<longleftrightarrow>
     (\<exists>d1 w1 w2 d2. t = ''{%'' @ d1 @ w1 @ ''endraw'' @ w2 @ d2 @ ''%}''
        \<and> (d1 = [] \<or> d1 = ''-'') \<and> (d2 = [] \<or> d2 = ''-'')
        \<and> list_all isspace w1 \<and> list_all isspace w2)"

subsection \<open>The delimiters in words\<close>

text \<open>
  What the patterns of the default lexer consume, written without patterns, on plain strings.
  The code is compared with these functions below.
\<close>

text \<open>An optional \<^verbatim>\<open>-\<close> skipped.\<close>

definition after_dash :: "string \<Rightarrow> string" where
  "after_dash s = (if prefix ''-'' s then tl s else s)"

text \<open>The text that follows an opening delimiter, once an optional \<^verbatim>\<open>-\<close> and then all
  whitespace have been skipped.\<close>

definition after_open :: "string \<Rightarrow> string" where
  "after_open s = dropWhile isspace (after_dash s)"

text \<open>A closing delimiter \<open>cl\<close> begins here: whitespace, an optional \<^verbatim>\<open>-\<close>, then
  \<open>cl\<close>.\<close>

definition closes_with :: "string \<Rightarrow> string \<Rightarrow> bool" where
  "closes_with cl s = prefix cl (after_dash (dropWhile isspace s))"

text \<open>The text that follows a closing delimiter that begins here: after whitespace, \<^verbatim>\<open>-\<close>,
  \<open>cl\<close> and all the whitespace behind it, or after whitespace and \<open>cl\<close>; the text itself
  when no closing delimiter begins here.\<close>

definition after_close :: "string \<Rightarrow> string \<Rightarrow> string" where
  "after_close cl s =
     (let s1 = dropWhile isspace s
      in if prefix (''-'' @ cl) s1 then dropWhile isspace (drop (Suc (length cl)) s1)
         else if prefix cl s1 then drop (length cl) s1
         else s)"

text \<open>A tag name ends here: at a whitespace character, or at \<^verbatim>\<open>%}\<close> or
  \<^verbatim>\<open>-%}\<close>.\<close>

definition name_ends :: "string \<Rightarrow> bool" where
  "name_ends s = ((s \<noteq> [] \<and> isspace (hd s)) \<or> prefix ''%}'' (after_dash s))"

text \<open>An end-raw tag begins here: \<^verbatim>\<open>{%\<close>, an optional \<^verbatim>\<open>-\<close>, whitespace,
  \<^verbatim>\<open>endraw\<close>, and a closing \<^verbatim>\<open>%}\<close>.\<close>

definition endraw_here :: "string \<Rightarrow> bool" where
  "endraw_here s =
     (prefix ''{%'' s \<and> prefix ''endraw'' (after_open (drop 2 s))
      \<and> closes_with ''%}'' (drop 6 (after_open (drop 2 s))))"

text \<open>The text before the first place where \<open>P\<close> holds of what follows; the whole text when
  there is no such place.\<close>

fun text_before :: "(string \<Rightarrow> bool) \<Rightarrow> string \<Rightarrow> string" where
  "text_before P [] = []"
| "text_before P (x # xs) = (if P (x # xs) then [] else x # text_before P xs)"

text \<open>The line on which the part \<open>rest\<close> at the end of the source begins: one more than the
  number of newlines before it.\<close>

definition line_of :: "string \<Rightarrow> string \<Rightarrow> nat" where
  "line_of src rest = 1 + count_newlines (take (length src - length rest) src)"


section \<open>Properties\<close>

subsection \<open>Pattern matching stays within the searched text\<close>

lemma match_terms_le: "match_terms ts s = Some n \<Longrightarrow> n \<le> length s"
  by (induction ts s arbitrary: n rule: match_terms.induct)
     (auto split: if_splits option.splits)

lemma match_here_le: "match_here r s = Some n \<Longrightarrow> n \<le> length s"
  by (induction r) (auto split: option.splits dest: match_terms_le)

lemma regex_search_bounds:
  "regex_search r s = Matched p m \<Longrightarrow> p + length m \<le> length s \<and> m = take (length m) (drop p s)"
proof (induction s arbitrary: p)
  case Nil
  then show ?case by (auto split: option.splits)
next
  case (Cons x xs)
  show ?case
  proof (cases "match_here r (x # xs)")
    case None
    with Cons.prems obtain q where q: "regex_search r xs = Matched q m" "p = Suc q"
      by (cases "regex_search r xs") auto
    from Cons.IH [OF q(1)] q(2) show ?thesis by simp
  next
    case (Some n)
    with Cons.prems have "p = 0" "m = take n (x # xs)" by auto
    moreover from Some have "n \<le> length (x # xs)" by (rule match_here_le)
    ultimately show ?thesis by (simp add: min_absorb2)
  qed
qed

subsection \<open>The cursor operations\<close>

lemma count_newlines_append [simp]:
  "count_newlines (xs @ ys) = count_newlines xs + count_newlines ys"
  by (simp add: count_newlines_def)

lemma count_newlines_take_add:
  "count_newlines (take (i + n) s) = count_newlines (take i s) + count_newlines (take n (drop i s))"
  by (simp add: take_add)

lemma ReadUntil_inv:
  assumes "cursor_inv st" "ReadUntil r st = (v, m, st')"
  shows "cursor_inv st' \<and> source st' = source st \<and> it st \<le> it st'
         \<and> v = take (it st' - it st) (drop (it st) (source st))"
proof (cases "regex_search r (drop (it st) (source st))")
  case Unmatched
  with assms show ?thesis
    by (auto simp: ReadUntil_def cursor_inv_def substr_from_def Position_def Let_def
        count_newlines_append [symmetric] simp del: count_newlines_append)
next
  case (Matched p s)
  from regex_search_bounds [OF Matched] have "p \<le> length (source st) - it st" by simp
  with assms Matched show ?thesis
    by (auto simp: ReadUntil_def cursor_inv_def substr_def Position_def Let_def count_newlines_take_add)
qed

lemma Read_inv:
  assumes "cursor_inv st" "Read r st = (v, m, st')"
  shows "cursor_inv st' \<and> source st' = source st \<and> it st \<le> it st'
         \<and> v = take (it st' - it st) (drop (it st) (source st))"
proof (cases "regex_search r (drop (it st) (source st))")
  case Unmatched
  with assms show ?thesis
    by (auto simp: Read_def Let_def)
next
  case (Matched p s)
  from regex_search_bounds [OF Matched] have "p + length s \<le> length (source st) - it st" by simp
  with assms Matched show ?thesis
    by (auto simp: Read_def cursor_inv_def substr_def Position_def Let_def count_newlines_take_add split: if_splits)
qed

lemma EatEnd_inv:
  assumes "cursor_inv st" "EatEnd r b st = (m, st')"
  shows "cursor_inv st' \<and> source st' = source st \<and> it st \<le> it st'"
proof -
  obtain v m1 st1 where r1: "Read r st = (v, m1, st1)" by (metis prod_cases3)
  obtain w m2 st2 where r2: "Read re_whitespace st1 = (w, m2, st2)" by (metis prod_cases3)
  from Read_inv [OF assms(1) r1] have 1: "cursor_inv st1" "source st1 = source st" "it st \<le> it st1"
    by simp_all
  from Read_inv [OF 1(1) r2] have 2: "cursor_inv st2" "source st2 = source st1" "it st1 \<le> it st2"
    by simp_all
  from assms(2) r1 r2 have "st' = st1 \<or> st' = st2"
    by (auto simp: EatEnd_def split: if_splits)
  with 1 2 show ?thesis by auto
qed

lemma At_same: "At str st = (b, st') \<Longrightarrow> st' = st"
  by (auto simp: At_def Let_def)

lemma statement_branch_inv:
  assumes "cursor_inv st" "statement_branch lx st = (st', m, toks)"
  shows "cursor_inv st' \<and> source st' = source st \<and> it st \<le> it st'"
proof -
  obtain s m1 st1 where r1: "Read (re_statement_start lx) st = (s, m1, st1)"
    by (metis prod_cases3)
  obtain v m2 st2 where r2: "ReadUntil (re_statement_end lx) st1 = (v, m2, st2)"
    by (metis prod_cases3)
  obtain m3 st3 where r3: "EatEnd (re_statement_end lx) (strip_tags lx) st2 = (m3, st3)"
    by (metis prod.exhaust)
  from assms(2) r1 r2 r3 have "st' = st3" by (simp add: statement_branch_def)
  moreover note Read_inv [OF assms(1) r1]
  moreover from this have "cursor_inv st1" by simp
  note ReadUntil_inv [OF this r2]
  moreover from this have "cursor_inv st2" by simp
  note EatEnd_inv [OF this r3]
  ultimately show ?thesis by simp
qed

lemma tag_branch_inv:
  assumes "cursor_inv st" "tag_branch lx st = (st', m, toks)"
  shows "cursor_inv st' \<and> source st' = source st \<and> it st \<le> it st'"
proof -
  obtain s m1 st1 where r1: "Read (re_tag_start lx) st = (s, m1, st1)"
    by (metis prod_cases3)
  obtain name m2 st2 where r2: "ReadUntil (re_name_end lx) st1 = (name, m2, st2)"
    by (metis prod_cases3)
  obtain v m3 st3 where r3: "ReadUntil (re_tag_end lx) st2 = (v, m3, st3)"
    by (metis prod_cases3)
  obtain m4 st4 where r4: "EatEnd (re_tag_end lx) (strip_tags lx) st3 = (m4, st4)"
    by (metis prod.exhaust)
  obtain lit m5 st5 where r5: "ReadUntil re_endraw st4 = (lit, m5, st5)"
    by (metis prod_cases3)
  from assms(2) r1 r2 r3 r4 r5 have st': "st' = st4 \<or> st' = st5"
    by (auto simp: tag_branch_def Let_def split: if_splits)
  note 1 = Read_inv [OF assms(1) r1]
  from 1 have "cursor_inv st1" by simp
  note 2 = ReadUntil_inv [OF this r2]
  from 2 have "cursor_inv st2" by simp
  note 3 = ReadUntil_inv [OF this r3]
  from 3 have "cursor_inv st3" by simp
  note 4 = EatEnd_inv [OF this r4]
  from 4 have "cursor_inv st4" by simp
  note 5 = ReadUntil_inv [OF this r5]
  from st' 1 2 3 4 5 show ?thesis by auto
qed

lemma literal_branch_inv:
  assumes "cursor_inv st" "literal_branch lx st = Inr (st', m, toks)"
  shows "cursor_inv st' \<and> source st' = source st \<and> it st \<le> it st'"
proof -
  obtain v m1 st1 where r1: "ReadUntil (re_literal_end lx) st = (v, m1, st1)"
    by (metis prod_cases3)
  from assms(2) r1 have "st' = st1"
    by (auto simp: literal_branch_def Let_def split: sum.splits)
  with ReadUntil_inv [OF assms(1) r1] show ?thesis by simp
qed

lemma step_branches:
  "step lx st =
     (if fst (At (statement_start lx) st) then Inr (statement_branch lx st)
      else if fst (At (tag_start lx) st) then Inr (tag_branch lx st)
      else literal_branch lx st)"
  by (simp add: step_def At_def Let_def split: bool.splits)

lemma step_inv:
  assumes "cursor_inv st" "step lx st = Inr (st', m, toks)"
  shows "cursor_inv st' \<and> source st' = source st \<and> it st \<le> it st'"
  using assms statement_branch_inv [of st lx st' m toks] tag_branch_inv [of st lx st' m toks]
    literal_branch_inv [of st lx st' m toks]
  by (simp add: step_branches split: if_splits)

lemma cursor_inv_init: "cursor_inv (State_init src)"
  by (simp add: cursor_inv_def State_init_def count_newlines_def)

lemma rfind_down_le: "rfind_down s str p = Some q \<Longrightarrow> q \<le> p \<and> take (length str) (drop q s) = str"
  by (induction p) (auto split: if_splits)

lemma rfind_down_hit: "take (length str) (drop p s) = str \<Longrightarrow> rfind_down s str p = Some p"
  by (cases p) auto

lemma rfind_at:
  assumes "pos \<le> length s"
  shows "rfind s str pos = Some pos \<longleftrightarrow> take (length str) (drop pos s) = str"
proof
  assume "rfind s str pos = Some pos"
  then show "take (length str) (drop pos s) = str"
    by (auto simp: rfind_def split: if_splits dest: rfind_down_le)
next
  assume h: "take (length str) (drop pos s) = str"
  then have "length (take (length str) (drop pos s)) = length str" by simp
  then have "length str = min (length str) (length s - pos)"
    by simp
  with assms have "length str \<le> length s" "pos \<le> length s - length str" by arith+
  with h show "rfind s str pos = Some pos"
    by (simp add: rfind_def min_absorb2 rfind_down_hit)
qed

lemma At_prefix:
  "it st \<le> length (source st) \<Longrightarrow>
   At str st = (prefix str (drop (it st) (source st)), st)"
  by (auto simp: At_def Position_def rfind_at prefix_def Let_def)
   (metis append_eq_conv_conj)+

text \<open>
  C10. \<^verbatim>\<open>State::At\<close> answers true exactly when the source, read from the current position,
  continues with the given string (the substring of that length starting there equals it), and it
  returns the cursor as it was: position and line counter are unchanged.
\<close>

theorem At_starts_with:
  assumes "it st \<le> length (source st)" and "At str st = (b, st')"
  shows "(b \<longleftrightarrow> take (length str) (drop (Position st) (source st)) = str)
       \<and> (b \<longleftrightarrow> prefix str (drop (Position st) (source st)))
       \<and> Position st' = Position st \<and> linenum st' = linenum st \<and> st' = st"
proof -
  from assms have "b = prefix str (drop (it st) (source st))" "st' = st"
    by (auto simp: At_prefix)
  moreover have "prefix str (drop (it st) (source st))
      \<longleftrightarrow> take (length str) (drop (it st) (source st)) = str"
    by (metis append_eq_conv_conj prefix_def append_take_drop_id)
  ultimately show ?thesis by (simp add: Position_def)
qed

theorem At_starts_with_witness:
  "it \<lparr>source = ''a{{ x'', it = 1, linenum = 1\<rparr>
     \<le> length (source \<lparr>source = ''a{{ x'', it = 1, linenum = 1\<rparr>)
   \<and> At ''{{'' \<lparr>source = ''a{{ x'', it = 1, linenum = 1\<rparr>
       = (True, \<lparr>source = ''a{{ x'', it = 1, linenum = 1\<rparr>)
   \<and> take (length ''{{'') (drop (Position \<lparr>source = ''a{{ x'', it = 1, linenum = 1\<rparr>)
        (source \<lparr>source = ''a{{ x'', it = 1, linenum = 1\<rparr>)) = ''{{''
   \<and> At ''{%'' \<lparr>source = ''a{{ x'', it = 1, linenum = 1\<rparr>
       = (False, \<lparr>source = ''a{{ x'', it = 1, linenum = 1\<rparr>)
   \<and> take (length ''{%'') (drop (Position \<lparr>source = ''a{{ x'', it = 1, linenum = 1\<rparr>)
        (source \<lparr>source = ''a{{ x'', it = 1, linenum = 1\<rparr>)) \<noteq> ''{%''"
proof -
  let ?st = "\<lparr>source = ''a{{ x'', it = 1, linenum = 1\<rparr>"
  have h: "it ?st \<le> length (source ?st)" by simp
  have a: "At ''{{'' ?st = (True, ?st)" by code_simp
  have b: "At ''{%'' ?st = (False, ?st)" by code_simp
  from At_starts_with [OF h a] At_starts_with [OF h b] h a b show ?thesis by simp
qed

lemma visits_inv: "visits lx src st \<Longrightarrow> cursor_inv st \<and> source st = src"
proof (induction rule: visits.induct)
  case start
  show ?case by (simp add: cursor_inv_init) (simp add: State_init_def)
next
  case (iterate st st' m toks)
  with step_inv [of st lx st' m toks] show ?case by simp
qed

text \<open>
  C5. Every cursor with which the loop of \<^verbatim>\<open>Tokenize\<close> starts an iteration lies within the
  source and has a line counter of one plus the number of newlines before its position. Each
  cursor operation (\<^verbatim>\<open>ReadUntil\<close>, \<^verbatim>\<open>Read\<close>, \<^verbatim>\<open>EatEnd\<close>, \<^verbatim>\<open>At\<close>) and each
  iteration of the loop, applied to such a cursor, returns such a cursor over the same source, at
  a position that is not smaller.
\<close>

theorem cursor_position_and_line:
  "(visits lx src st \<longrightarrow>
      source st = src \<and> Position st \<le> length src
      \<and> linenum st = 1 + count_newlines (take (Position st) src))
   \<and> (Position st \<le> length (source st)
        \<and> linenum st = 1 + count_newlines (take (Position st) (source st))
        \<and> (st' \<in> {snd (snd (ReadUntil r st)), snd (snd (Read r st)), snd (EatEnd r b st),
                    snd (At str st)}
            \<or> step lx st = Inr (st', m, toks))
      \<longrightarrow> Position st \<le> Position st'
          \<and> source st' = source st \<and> Position st' \<le> length (source st')
          \<and> linenum st' = 1 + count_newlines (take (Position st') (source st')))"
proof (rule conjI; rule impI)
  assume "visits lx src st"
  then have "cursor_inv st \<and> source st = src" by (rule visits_inv)
  then show "source st = src \<and> Position st \<le> length src
      \<and> linenum st = 1 + count_newlines (take (Position st) src)"
    by (auto simp: cursor_inv_def Position_def)
next
  assume h: "Position st \<le> length (source st)
        \<and> linenum st = 1 + count_newlines (take (Position st) (source st))
        \<and> (st' \<in> {snd (snd (ReadUntil r st)), snd (snd (Read r st)), snd (EatEnd r b st),
                    snd (At str st)}
            \<or> step lx st = Inr (st', m, toks))"
  then have inv: "cursor_inv st" by (simp add: cursor_inv_def Position_def)
  have "cursor_inv st' \<and> source st' = source st \<and> it st \<le> it st'"
  proof -
    from h consider "st' = snd (snd (ReadUntil r st))" | "st' = snd (snd (Read r st))"
      | "st' = snd (EatEnd r b st)" | "st' = snd (At str st)"
      | "step lx st = Inr (st', m, toks)" by auto
    then show ?thesis
    proof cases
      case 1
      then have "ReadUntil r st = (fst (ReadUntil r st), fst (snd (ReadUntil r st)), st')" by simp
      from ReadUntil_inv [OF inv this] show ?thesis by simp
    next
      case 2
      then have "Read r st = (fst (Read r st), fst (snd (Read r st)), st')" by simp
      from Read_inv [OF inv this] show ?thesis by simp
    next
      case 3
      then have "EatEnd r b st = (fst (EatEnd r b st), st')" by simp
      from EatEnd_inv [OF inv this] show ?thesis by simp
    next
      case 4
      then have "st' = st" by (simp add: At_def Let_def)
      with inv show ?thesis by simp
    next
      case 5
      from step_inv [OF inv this] show ?thesis .
    qed
  qed
  then show "Position st \<le> Position st'
          \<and> source st' = source st \<and> Position st' \<le> length (source st')
          \<and> linenum st' = 1 + count_newlines (take (Position st') (source st'))"
    by (auto simp: cursor_inv_def Position_def)
qed

theorem cursor_position_and_line_witness:
  "visits Lexer0 (''a'' @ [CHR 0x0A] @ ''b{{x}}'') (State_init (''a'' @ [CHR 0x0A] @ ''b{{x}}''))
   \<and> Position (State_init (''a'' @ [CHR 0x0A] @ ''b{{x}}''))
       \<le> length (source (State_init (''a'' @ [CHR 0x0A] @ ''b{{x}}'')))
   \<and> linenum (State_init (''a'' @ [CHR 0x0A] @ ''b{{x}}''))
       = 1 + count_newlines (take (Position (State_init (''a'' @ [CHR 0x0A] @ ''b{{x}}'')))
                                   (source (State_init (''a'' @ [CHR 0x0A] @ ''b{{x}}''))))
   \<and> step Lexer0 (State_init (''a'' @ [CHR 0x0A] @ ''b{{x}}''))
       = Inr (\<lparr>source = ''a'' @ [CHR 0x0A] @ ''b{{x}}'', it = 3, linenum = 2\<rparr>, Matched 3 ''{{'',
              [Token 1 TOKEN_LITERAL (''a'' @ [CHR 0x0A] @ ''b'')])
   \<and> Position (State_init (''a'' @ [CHR 0x0A] @ ''b{{x}}''))
       \<le> Position \<lparr>source = ''a'' @ [CHR 0x0A] @ ''b{{x}}'', it = 3, linenum = 2\<rparr>
   \<and> linenum \<lparr>source = ''a'' @ [CHR 0x0A] @ ''b{{x}}'', it = 3, linenum = 2\<rparr>
       = 1 + count_newlines
               (take (Position \<lparr>source = ''a'' @ [CHR 0x0A] @ ''b{{x}}'', it = 3, linenum = 2\<rparr>)
                     (''a'' @ [CHR 0x0A] @ ''b{{x}}''))
   \<and> count_newlines
         (take (Position \<lparr>source = ''a'' @ [CHR 0x0A] @ ''b{{x}}'', it = 3, linenum = 2\<rparr>)
               (''a'' @ [CHR 0x0A] @ ''b{{x}}'')) = 1"
proof -
  let ?src = "''a'' @ [CHR 0x0A] @ ''b{{x}}''"
  let ?st' = "\<lparr>source = ?src, it = 3, linenum = 2\<rparr>"
  have v: "visits Lexer0 ?src (State_init ?src)" by (rule visits.start)
  have p: "Position (State_init ?src) \<le> length (source (State_init ?src))"
    by (simp add: Position_def State_init_def)
  have l: "linenum (State_init ?src)
      = 1 + count_newlines (take (Position (State_init ?src)) (source (State_init ?src)))"
    by (simp add: Position_def State_init_def count_newlines_def)
  have s: "step Lexer0 (State_init ?src)
       = Inr (?st', Matched 3 ''{{'', [Token 1 TOKEN_LITERAL (''a'' @ [CHR 0x0A] @ ''b'')])"
    by code_simp
  have c: "count_newlines (take (Position ?st') ?src) = 1"
    by (simp add: Position_def count_newlines_def)
  from v p l s c
    cursor_position_and_line [of Lexer0 ?src "State_init ?src" ?st' "[]" False "[]"
      "Matched 3 ''{{''" "[Token 1 TOKEN_LITERAL (''a'' @ [CHR 0x0A] @ ''b'')]"]
  show ?thesis by simp
qed

subsection \<open>Stripping\<close>

lemma find_if_takeWhile: "find_if p xs = length (takeWhile (\<lambda>x. \<not> p x) xs)"
  by (induction xs) auto

lemma lstrip_dropWhile: "lstrip s = dropWhile (\<lambda>c. \<not> notspace c) s"
  by (simp add: lstrip_def find_if_takeWhile dropWhile_eq_drop)

lemma rstrip_dropWhile: "rstrip s = rev (dropWhile (\<lambda>c. \<not> notspace c) (rev s))"
proof -
  have "rev (dropWhile (\<lambda>c. \<not> notspace c) (rev s))
      = rev (drop (find_if notspace (rev s)) (rev s))"
    by (simp add: find_if_takeWhile dropWhile_eq_drop)
  also have "\<dots> = take (length s - find_if notspace (rev s)) s"
    by (simp add: rev_drop)
  finally show ?thesis by (simp add: rstrip_def)
qed

lemma notspace_iff: "notspace c \<longleftrightarrow> c \<notin> {CHR '' '', CHR 0x09, CHR 0x0A, CHR 0x0D}"
  by (auto simp: notspace_def)

lemma strip_dropWhile:
  "strip s = rev (dropWhile (\<lambda>c. c \<in> {CHR '' '', CHR 0x09, CHR 0x0A, CHR 0x0D})
                   (rev (dropWhile (\<lambda>c. c \<in> {CHR '' '', CHR 0x09, CHR 0x0A, CHR 0x0D}) s)))"
  by (simp add: strip_def lstrip_dropWhile rstrip_dropWhile notspace_iff)

lemma strip_ends:
  "strip s \<noteq> [] \<Longrightarrow> notspace (hd (strip s)) \<and> notspace (last (strip s))"
proof -
  assume ne: "strip s \<noteq> []"
  let ?l = "dropWhile (\<lambda>c. \<not> notspace c) s"
  let ?r = "dropWhile (\<lambda>c. \<not> notspace c) (rev ?l)"
  have s: "strip s = rev ?r" by (simp add: strip_def lstrip_dropWhile rstrip_dropWhile)
  with ne have rne: "?r \<noteq> []" by simp
  then have "notspace (hd ?r)" using hd_dropWhile by metis
  with rne s have la: "notspace (last (strip s))" by (simp add: last_rev)
  have lne: "?l \<noteq> []"
  proof
    assume a: "?l = []"
    have "?r = dropWhile (\<lambda>c. \<not> notspace c) (rev [])" by (simp only: a)
    with rne show False by (simp only: rev.simps dropWhile.simps)
  qed
  then have hl: "notspace (hd ?l)" using hd_dropWhile by metis
  have "rev ?l = takeWhile (\<lambda>c. \<not> notspace c) (rev ?l) @ ?r" by simp
  then have "?l = rev ?r @ rev (takeWhile (\<lambda>c. \<not> notspace c) (rev ?l))"
    by (metis rev_append rev_rev_ident)
  with rne have "hd ?l = hd (rev ?r)" by (metis hd_append2 rev_is_Nil_conv)
  with hl s have "notspace (hd (strip s))" by simp
  with la show ?thesis by simp
qed

lemma strip_decomp:
  "\<exists>l r. s = l @ strip s @ r \<and> (\<forall>c \<in> set l. \<not> notspace c) \<and> (\<forall>c \<in> set r. \<not> notspace c)"
proof -
  let ?l = "dropWhile (\<lambda>c. \<not> notspace c) s"
  let ?r = "dropWhile (\<lambda>c. \<not> notspace c) (rev ?l)"
  have s: "strip s = rev ?r" by (simp add: strip_def lstrip_dropWhile rstrip_dropWhile)
  have "rev ?l = takeWhile (\<lambda>c. \<not> notspace c) (rev ?l) @ ?r" by simp
  then have l: "?l = rev ?r @ rev (takeWhile (\<lambda>c. \<not> notspace c) (rev ?l))"
    by (metis rev_append rev_rev_ident)
  have "s = takeWhile (\<lambda>c. \<not> notspace c) s @ ?l" by simp
  with l s have "s = takeWhile (\<lambda>c. \<not> notspace c) s @ strip s
      @ rev (takeWhile (\<lambda>c. \<not> notspace c) (rev ?l))" by simp
  moreover have "\<forall>c \<in> set (takeWhile (\<lambda>c. \<not> notspace c) s). \<not> notspace c"
    by (auto dest: set_takeWhileD)
  moreover have "\<forall>c \<in> set (rev (takeWhile (\<lambda>c. \<not> notspace c) (rev ?l))). \<not> notspace c"
    by (auto dest: set_takeWhileD)
  ultimately show ?thesis by blast
qed

subsection \<open>The tag branch\<close>

lemma tag_branch_tokens:
  assumes "Read (re_tag_start lx) st = (s, m1, st1)"
      and "ReadUntil (re_name_end lx) st1 = (name, m2, st2)"
      and "ReadUntil (re_tag_end lx) st2 = (v, m3, st3)"
      and "EatEnd (re_tag_end lx) (strip_tags lx) st3 = (m4, st4)"
      and "ReadUntil re_endraw st4 = (lit, m5, st5)"
  shows "tag_branch lx st =
     (if name = ''raw'' then st5 else st4, if name = ''raw'' then m5 else m4,
      [Token (linenum st1) TOKEN_TAG name]
      @ (if strip v \<noteq> [] then [Token (linenum st2) TOKEN_EXPRESSION (strip v)] else [])
      @ (if name = ''raw'' then [Token (linenum st4) TOKEN_LITERAL lit] else []))"
  using assms by (simp add: tag_branch_def Let_def)

text \<open>
  C7. In the tag branch the text read between the tag name and the tag-end pattern is stripped of
  leading and trailing whitespace (space, tab, line feed, carriage return), and the tokens pushed
  contain an expression token, with the stripped text, exactly when the stripped text is not
  empty; otherwise they contain none.
\<close>

theorem tag_expression_stripped:
  assumes "Read (re_tag_start lx) st = (s, m1, st1)"
      and "ReadUntil (re_name_end lx) st1 = (name, m2, st2)"
      and "ReadUntil (re_tag_end lx) st2 = (v, m3, st3)"
      and "tag_branch lx st = (st', m, toks)"
  shows "strip v = rev (dropWhile (\<lambda>c. c \<in> {CHR '' '', CHR 0x09, CHR 0x0A, CHR 0x0D})
                     (rev (dropWhile (\<lambda>c. c \<in> {CHR '' '', CHR 0x09, CHR 0x0A, CHR 0x0D}) v)))
       \<and> filter (\<lambda>t. tok_type t = TOKEN_EXPRESSION) toks
           = (if strip v = [] then [] else [Token (linenum st2) TOKEN_EXPRESSION (strip v)])
       \<and> Tokenize Lexer0 ''{% else %}''
           = Some (Inr [Token 1 TOKEN_TAG ''else'', Token 1 TOKEN_EOF []])"
proof -
  obtain m4 st4 where r4: "EatEnd (re_tag_end lx) (strip_tags lx) st3 = (m4, st4)"
    by (metis prod.exhaust)
  obtain lit m5 st5 where r5: "ReadUntil re_endraw st4 = (lit, m5, st5)"
    by (metis prod_cases3)
  from tag_branch_tokens [OF assms(1-3) r4 r5] assms(4)
  have "toks = [Token (linenum st1) TOKEN_TAG name]
      @ (if strip v \<noteq> [] then [Token (linenum st2) TOKEN_EXPRESSION (strip v)] else [])
      @ (if name = ''raw'' then [Token (linenum st4) TOKEN_LITERAL lit] else [])"
    by simp
  then have "filter (\<lambda>t. tok_type t = TOKEN_EXPRESSION) toks
           = (if strip v = [] then [] else [Token (linenum st2) TOKEN_EXPRESSION (strip v)])"
    by (simp add: TOKEN_TAG_def TOKEN_EXPRESSION_def TOKEN_LITERAL_def)
  moreover have "Tokenize Lexer0 ''{% else %}''
           = Some (Inr [Token 1 TOKEN_TAG ''else'', Token 1 TOKEN_EOF []])"
    by code_simp
  ultimately show ?thesis using strip_dropWhile [of v] by simp
qed

theorem tag_expression_stripped_witness:
  "Read (re_tag_start Lexer0) (State_init ''{% if  x == 1 -%} y'')
     = (''{% '', Matched 0 ''{% '', \<lparr>source = ''{% if  x == 1 -%} y'', it = 3, linenum = 1\<rparr>)
   \<and> ReadUntil (re_name_end Lexer0) \<lparr>source = ''{% if  x == 1 -%} y'', it = 3, linenum = 1\<rparr>
     = (''if'', Matched 2 '' '', \<lparr>source = ''{% if  x == 1 -%} y'', it = 5, linenum = 1\<rparr>)
   \<and> ReadUntil (re_tag_end Lexer0) \<lparr>source = ''{% if  x == 1 -%} y'', it = 5, linenum = 1\<rparr>
     = (''  x == 1'', Matched 8 '' -%}'', \<lparr>source = ''{% if  x == 1 -%} y'', it = 13, linenum = 1\<rparr>)
   \<and> tag_branch Lexer0 (State_init ''{% if  x == 1 -%} y'')
     = (\<lparr>source = ''{% if  x == 1 -%} y'', it = 18, linenum = 1\<rparr>, Matched 0 '' '',
        [Token 1 TOKEN_TAG ''if'', Token 1 TOKEN_EXPRESSION ''x == 1''])
   \<and> strip ''  x == 1'' = ''x == 1''
   \<and> filter (\<lambda>t. tok_type t = TOKEN_EXPRESSION)
        [Token 1 TOKEN_TAG ''if'', Token 1 TOKEN_EXPRESSION ''x == 1'']
     = [Token 1 TOKEN_EXPRESSION ''x == 1'']"
proof -
  let ?src = "''{% if  x == 1 -%} y''"
  have 1: "Read (re_tag_start Lexer0) (State_init ?src)
     = (''{% '', Matched 0 ''{% '', \<lparr>source = ?src, it = 3, linenum = 1\<rparr>)"
    by code_simp
  have 2: "ReadUntil (re_name_end Lexer0) \<lparr>source = ?src, it = 3, linenum = 1\<rparr>
     = (''if'', Matched 2 '' '', \<lparr>source = ?src, it = 5, linenum = 1\<rparr>)"
    by code_simp
  have 3: "ReadUntil (re_tag_end Lexer0) \<lparr>source = ?src, it = 5, linenum = 1\<rparr>
     = (''  x == 1'', Matched 8 '' -%}'', \<lparr>source = ?src, it = 13, linenum = 1\<rparr>)"
    by code_simp
  have 4: "tag_branch Lexer0 (State_init ?src)
     = (\<lparr>source = ?src, it = 18, linenum = 1\<rparr>, Matched 0 '' '',
        [Token 1 TOKEN_TAG ''if'', Token 1 TOKEN_EXPRESSION ''x == 1''])"
    by code_simp
  have 5: "strip ''  x == 1'' = ''x == 1''" by code_simp
  from tag_expression_stripped [OF 1 2 3 4] 1 2 3 4 5 show ?thesis by simp
qed

text \<open>
  C9. Whenever an iteration takes the tag branch, the first token it pushes is a tag token carrying
  the name read up to the name-end pattern, whatever that name is; when the name is empty the token
  is still pushed, with the empty string as its text, as for the input \<^verbatim>\<open>{%  %}\<close>.
\<close>

theorem tag_token_always_emitted:
  assumes "\<not> fst (At (statement_start lx) st)" and "fst (At (tag_start lx) st)"
      and "Read (re_tag_start lx) st = (s, m1, st1)"
      and "ReadUntil (re_name_end lx) st1 = (name, m2, st2)"
      and "step lx st = Inr (st', m, toks)"
  shows "(\<exists>rest. toks = Token (linenum st1) TOKEN_TAG name # rest)
       \<and> (name = [] \<longrightarrow> hd toks = Token (linenum st1) TOKEN_TAG [])
       \<and> Tokenize Lexer0 ''{%  %}'' = Some (Inr [Token 1 TOKEN_TAG [], Token 1 TOKEN_EOF []])"
proof -
  obtain v m3 st3 where r3: "ReadUntil (re_tag_end lx) st2 = (v, m3, st3)"
    by (metis prod_cases3)
  obtain m4 st4 where r4: "EatEnd (re_tag_end lx) (strip_tags lx) st3 = (m4, st4)"
    by (metis prod.exhaust)
  obtain lit m5 st5 where r5: "ReadUntil re_endraw st4 = (lit, m5, st5)"
    by (metis prod_cases3)
  from assms(1,2,5) have "tag_branch lx st = (st', m, toks)" by (simp add: step_branches)
  with tag_branch_tokens [OF assms(3,4) r3 r4 r5]
  have t: "\<exists>rest. toks = Token (linenum st1) TOKEN_TAG name # rest" by simp
  have "Tokenize Lexer0 ''{%  %}'' = Some (Inr [Token 1 TOKEN_TAG [], Token 1 TOKEN_EOF []])"
    by code_simp
  with t show ?thesis by auto
qed

theorem tag_token_always_emitted_witness:
  "\<not> fst (At (statement_start Lexer0) (State_init ''{%  %}''))
   \<and> fst (At (tag_start Lexer0) (State_init ''{%  %}''))
   \<and> Read (re_tag_start Lexer0) (State_init ''{%  %}'')
       = (''{%  '', Matched 0 ''{%  '', \<lparr>source = ''{%  %}'', it = 4, linenum = 1\<rparr>)
   \<and> ReadUntil (re_name_end Lexer0) \<lparr>source = ''{%  %}'', it = 4, linenum = 1\<rparr>
       = ([], Matched 0 ''%}'', \<lparr>source = ''{%  %}'', it = 4, linenum = 1\<rparr>)
   \<and> step Lexer0 (State_init ''{%  %}'')
       = Inr (\<lparr>source = ''{%  %}'', it = 6, linenum = 1\<rparr>, Matched 0 ''%}'', [Token 1 TOKEN_TAG []])
   \<and> hd [Token 1 TOKEN_TAG []] = Token 1 TOKEN_TAG []"
proof -
  let ?src = "''{%  %}''"
  have 1: "\<not> fst (At (statement_start Lexer0) (State_init ?src))" by code_simp
  have 2: "fst (At (tag_start Lexer0) (State_init ?src))" by code_simp
  have 3: "Read (re_tag_start Lexer0) (State_init ?src)
       = (''{%  '', Matched 0 ''{%  '', \<lparr>source = ?src, it = 4, linenum = 1\<rparr>)" by code_simp
  have 4: "ReadUntil (re_name_end Lexer0) \<lparr>source = ?src, it = 4, linenum = 1\<rparr>
       = ([], Matched 0 ''%}'', \<lparr>source = ?src, it = 4, linenum = 1\<rparr>)" by code_simp
  have 5: "step Lexer0 (State_init ?src)
       = Inr (\<lparr>source = ?src, it = 6, linenum = 1\<rparr>, Matched 0 ''%}'', [Token 1 TOKEN_TAG []])"
    by code_simp
  from tag_token_always_emitted [OF 1 2 3 4 5] 1 2 3 4 5 show ?thesis by simp
qed

subsection \<open>The patterns of the default lexer\<close>

lemma match_many_space: "match_terms [(Space, Many)] s = Some (length (takeWhile isspace s))"
  by (induction s) auto

lemma match_dash_space:
  "\<exists>n. match_terms [(Chr CHR ''-'', Optional), (Space, Many)] s = Some n"
  by (cases s) (auto simp: match_many_space)

lemma regex_search_here:
  "match_here r s = Some n \<Longrightarrow> regex_search r s = Matched 0 (take n s)"
  by (cases s) auto

lemma regex_search_not_here:
  "match_here r s = None \<Longrightarrow> regex_search r s = Matched p m \<Longrightarrow> 0 < p"
  by (cases s) (auto split: option.splits elim: shift.elims)

lemma statement_start_here:
  assumes "prefix ''{{'' s"
  shows "\<exists>n. match_here (re_statement_start Lexer0) s = Some (Suc (Suc n))"
proof -
  from assms obtain r where s: "s = CHR ''{'' # CHR ''{'' # r" by (auto simp: prefix_def)
  from match_dash_space [of r] show ?thesis by (auto simp: s Lexer0_def)
qed

lemma tag_start_here:
  assumes "prefix ''{%'' s"
  shows "\<exists>n. match_here (re_tag_start Lexer0) s = Some (Suc (Suc n))"
proof -
  from assms obtain r where s: "s = CHR ''{'' # CHR ''%'' # r" by (auto simp: prefix_def)
  from match_dash_space [of r] show ?thesis by (auto simp: s Lexer0_def)
qed

lemma literal_end_not_here:
  assumes "\<not> prefix ''{{'' s" and "\<not> prefix ''{%'' s"
  shows "match_here (re_literal_end Lexer0) s = None"
proof (cases s)
  case Nil
  then show ?thesis by (simp add: Lexer0_def)
next
  case (Cons x xs)
  with assms show ?thesis
    by (cases xs) (auto simp: Lexer0_def split: option.splits)
qed

lemma Read_here_advances:
  assumes "cursor_inv st" and "match_here r (drop (it st) (source st)) = Some n"
      and "Read r st = (s, m, st')"
  shows "it st' = it st + n"
proof -
  let ?rest = "drop (it st) (source st)"
  from assms(2) have "regex_search r ?rest = Matched 0 (take n ?rest)"
    by (rule regex_search_here)
  moreover from assms(2) have "n \<le> length ?rest" by (rule match_here_le)
  ultimately show ?thesis using assms(3) by (auto simp: Read_def Let_def min_absorb2)
qed

lemma ReadUntil_not_here_advances:
  assumes "cursor_inv st" and "\<not> End st" and "match_here r (drop (it st) (source st)) = None"
      and "ReadUntil r st = (v, m, st')"
  shows "it st < it st'"
proof (cases "regex_search r (drop (it st) (source st))")
  case Unmatched
  with assms show ?thesis
    by (auto simp: ReadUntil_def Let_def End_def cursor_inv_def)
next
  case (Matched p s)
  with assms(3) have "0 < p" by (auto dest: regex_search_not_here)
  with Matched assms(4) show ?thesis by (auto simp: ReadUntil_def Let_def)
qed

lemma statement_branch_advances:
  assumes inv: "cursor_inv st" and at: "fst (At ''{{'' st)"
      and b: "statement_branch Lexer0 st = (st', m, toks)"
  shows "it st + 2 \<le> it st'"
proof -
  obtain s m1 st1 where r1: "Read (re_statement_start Lexer0) st = (s, m1, st1)"
    by (metis prod_cases3)
  obtain v m2 st2 where r2: "ReadUntil (re_statement_end Lexer0) st1 = (v, m2, st2)"
    by (metis prod_cases3)
  obtain m3 st3 where r3: "EatEnd (re_statement_end Lexer0) (strip_tags Lexer0) st2 = (m3, st3)"
    by (metis prod.exhaust)
  from b r1 r2 r3 have st': "st' = st3" by (simp add: statement_branch_def)
  from inv at have "prefix ''{{'' (drop (it st) (source st))"
    by (simp add: At_prefix cursor_inv_def)
  then obtain n where "match_here (re_statement_start Lexer0) (drop (it st) (source st))
      = Some (Suc (Suc n))"
    using statement_start_here by blast
  from Read_here_advances [OF inv this r1] have a: "it st + 2 \<le> it st1" by simp
  note 1 = Read_inv [OF inv r1]
  from 1 have "cursor_inv st1" by simp
  note 2 = ReadUntil_inv [OF this r2]
  from 2 have "cursor_inv st2" by simp
  note 3 = EatEnd_inv [OF this r3]
  from a 2 3 st' show ?thesis by simp
qed

lemma tag_branch_advances:
  assumes inv: "cursor_inv st" and at: "fst (At ''{%'' st)"
      and b: "tag_branch Lexer0 st = (st', m, toks)"
  shows "it st + 2 \<le> it st'"
proof -
  obtain s m1 st1 where r1: "Read (re_tag_start Lexer0) st = (s, m1, st1)"
    by (metis prod_cases3)
  from inv at have "prefix ''{%'' (drop (it st) (source st))"
    by (simp add: At_prefix cursor_inv_def)
  then obtain n where "match_here (re_tag_start Lexer0) (drop (it st) (source st))
      = Some (Suc (Suc n))"
    using tag_start_here by blast
  from Read_here_advances [OF inv this r1] have a: "it st + 2 \<le> it st1" by simp
  obtain name m2 st2 where r2: "ReadUntil (re_name_end Lexer0) st1 = (name, m2, st2)"
    by (metis prod_cases3)
  obtain v m3 st3 where r3: "ReadUntil (re_tag_end Lexer0) st2 = (v, m3, st3)"
    by (metis prod_cases3)
  obtain m4 st4 where r4: "EatEnd (re_tag_end Lexer0) (strip_tags Lexer0) st3 = (m4, st4)"
    by (metis prod.exhaust)
  obtain lit m5 st5 where r5: "ReadUntil re_endraw st4 = (lit, m5, st5)"
    by (metis prod_cases3)
  from b r1 r2 r3 r4 r5 have st': "st' = st4 \<or> st' = st5"
    by (auto simp: tag_branch_def Let_def split: if_splits)
  note 1 = Read_inv [OF inv r1]
  from 1 have "cursor_inv st1" by simp
  note 2 = ReadUntil_inv [OF this r2]
  from 2 have "cursor_inv st2" by simp
  note 3 = ReadUntil_inv [OF this r3]
  from 3 have "cursor_inv st3" by simp
  note 4 = EatEnd_inv [OF this r4]
  from 4 have "cursor_inv st4" by simp
  note 5 = ReadUntil_inv [OF this r5]
  from st' a 2 3 4 5 show ?thesis by auto
qed

lemma literal_read_advances:
  assumes inv: "cursor_inv st" and "\<not> End st"
      and "\<not> fst (At ''{{'' st)" and "\<not> fst (At ''{%'' st)"
      and r: "ReadUntil (re_literal_end Lexer0) st = (v, m, st')"
  shows "it st < it st'"
proof -
  from inv assms(3,4) have "\<not> prefix ''{{'' (drop (it st) (source st))"
    "\<not> prefix ''{%'' (drop (it st) (source st))"
    by (simp_all add: At_prefix cursor_inv_def)
  then have "match_here (re_literal_end Lexer0) (drop (it st) (source st)) = None"
    by (rule literal_end_not_here)
  from ReadUntil_not_here_advances [OF inv assms(2) this r] show ?thesis .
qed

lemma step_advances:
  assumes inv: "cursor_inv st" and "\<not> End st" and s: "step Lexer0 st = Inr (st', m, toks)"
  shows "it st < it st'"
proof -
  consider "fst (At ''{{'' st)" | "\<not> fst (At ''{{'' st)" "fst (At ''{%'' st)"
    | "\<not> fst (At ''{{'' st)" "\<not> fst (At ''{%'' st)" by blast
  then show ?thesis
  proof cases
    case 1
    with s have "statement_branch Lexer0 st = (st', m, toks)"
      by (simp add: step_branches Lexer0_def)
    from statement_branch_advances [OF inv 1 this] show ?thesis by simp
  next
    case 2
    with s have "tag_branch Lexer0 st = (st', m, toks)"
      by (simp add: step_branches Lexer0_def)
    from tag_branch_advances [OF inv 2(2) this] show ?thesis by simp
  next
    case 3
    with s have l: "literal_branch Lexer0 st = Inr (st', m, toks)"
      by (simp add: step_branches Lexer0_def)
    obtain v m1 st1 where r1: "ReadUntil (re_literal_end Lexer0) st = (v, m1, st1)"
      by (metis prod_cases3)
    with l have "st' = st1" by (auto simp: literal_branch_def Let_def split: sum.splits)
    with literal_read_advances [OF inv assms(2) 3 r1] show ?thesis by simp
  qed
qed

subsection \<open>The loop of the default lexer ends\<close>

lemma Tokenize_loop_returns:
  "cursor_inv st \<Longrightarrow> \<exists>r. Tokenize_loop Lexer0 st toks = Some r"
proof (induction "length (source st) - it st" arbitrary: st toks rule: less_induct)
  case less
  show ?case
  proof (cases "End st")
    case True
    then show ?thesis by (subst Tokenize_loop.simps) simp
  next
    case False
    show ?thesis
    proof (cases "step Lexer0 st")
      case (Inl e)
      with False show ?thesis by (subst Tokenize_loop.simps) simp
    next
      case (Inr x)
      obtain st' m ts where x: "x = (st', m, ts)" by (metis prod_cases3)
      from step_advances [OF less.prems False Inr [unfolded x]] have "it st < it st'" .
      moreover from step_inv [OF less.prems Inr [unfolded x]]
      have i: "cursor_inv st'" "source st' = source st" by simp_all
      moreover from less.prems False have "it st < length (source st)"
        by (simp add: End_def cursor_inv_def)
      ultimately have "length (source st') - it st' < length (source st) - it st" by simp
      from less.hyps [OF this i(1)] obtain r where "Tokenize_loop Lexer0 st' (toks @ ts) = Some r"
        by blast
      with False Inr x show ?thesis by (subst Tokenize_loop.simps) simp
    qed
  qed
qed

lemma Tokenize_returns: "\<exists>r. Tokenize Lexer0 src = Some r"
  by (simp add: Tokenize_def Tokenize_loop_returns cursor_inv_init)

lemma ReadUntil_unmatched_End:
  assumes "ReadUntil r st = (v, Unmatched, st')" shows "End st'"
proof (cases "regex_search r (drop (it st) (source st))")
  case Unmatched
  with assms show ?thesis by (auto simp: ReadUntil_def Let_def End_def)
next
  case (Matched p s)
  with assms show ?thesis by (simp add: ReadUntil_def Let_def)
qed

lemma raw_without_endraw:
  assumes "tag_branch lx st = (st', Unmatched, Token l TOKEN_TAG ''raw'' # rest)"
  shows "End st'"
proof -
  obtain s m1 st1 where r1: "Read (re_tag_start lx) st = (s, m1, st1)"
    by (metis prod_cases3)
  obtain name m2 st2 where r2: "ReadUntil (re_name_end lx) st1 = (name, m2, st2)"
    by (metis prod_cases3)
  obtain v m3 st3 where r3: "ReadUntil (re_tag_end lx) st2 = (v, m3, st3)"
    by (metis prod_cases3)
  obtain m4 st4 where r4: "EatEnd (re_tag_end lx) (strip_tags lx) st3 = (m4, st4)"
    by (metis prod.exhaust)
  obtain lit m5 st5 where r5: "ReadUntil re_endraw st4 = (lit, m5, st5)"
    by (metis prod_cases3)
  from tag_branch_tokens [OF r1 r2 r3 r4 r5] assms
  have eq: "(if name = ''raw'' then st5 else st4, if name = ''raw'' then m5 else m4,
      Token (linenum st1) TOKEN_TAG name
      # (if strip v \<noteq> [] then [Token (linenum st2) TOKEN_EXPRESSION (strip v)] else [])
      @ (if name = ''raw'' then [Token (linenum st4) TOKEN_LITERAL lit] else []))
      = (st', Unmatched, Token l TOKEN_TAG ''raw'' # rest)"
    by (simp only: append_Cons append_Nil)
  then have "Token (linenum st1) TOKEN_TAG name = Token l TOKEN_TAG ''raw''" by blast
  then have n: "name = ''raw''" by (simp only: Token.inject)
  from eq have "st5 = st'" "m5 = Unmatched" unfolding n by simp_all
  with r5 show ?thesis by (auto dest: ReadUntil_unmatched_End)
qed

text \<open>
  With the default lexer, an iteration of the loop entered away from the end moves the cursor
  forward in the statement branch and in the tag branch, and in the literal branch
  \<^verbatim>\<open>ReadUntil\<close> has moved it before the match is inspected. Every completed iteration ends
  strictly further on; one that read a tag named \<^verbatim>\<open>raw\<close> and then found no
  \<^verbatim>\<open>endraw\<close> ends at the end of the source. The model of the loop has a result for every
  source: the token stream, or the error at which the run stopped.
\<close>

lemma default_lexer_progress:
  "(visits Lexer0 src st \<and> \<not> End st \<longrightarrow>
      (if fst (At (statement_start Lexer0) st)
       then Position st < Position (fst (statement_branch Lexer0 st))
       else if fst (At (tag_start Lexer0) st)
       then Position st < Position (fst (tag_branch Lexer0 st))
       else Position st < Position (snd (snd (ReadUntil (re_literal_end Lexer0) st)))))
   \<and> (visits Lexer0 src st \<and> \<not> End st \<and> step Lexer0 st = Inr (st', m, toks) \<longrightarrow>
        Position st < Position st'
        \<and> (hd toks = Token l TOKEN_TAG ''raw'' \<and> m = Unmatched \<longrightarrow> End st'))
   \<and> (\<exists>r. Tokenize Lexer0 src = Some r)"
proof (intro conjI)
  show "visits Lexer0 src st \<and> \<not> End st \<longrightarrow>
      (if fst (At (statement_start Lexer0) st)
       then Position st < Position (fst (statement_branch Lexer0 st))
       else if fst (At (tag_start Lexer0) st)
       then Position st < Position (fst (tag_branch Lexer0 st))
       else Position st < Position (snd (snd (ReadUntil (re_literal_end Lexer0) st))))"
  proof
    assume h: "visits Lexer0 src st \<and> \<not> End st"
    then have inv: "cursor_inv st" by (auto dest: visits_inv)
    have ds: "statement_start Lexer0 = ''{{''" "tag_start Lexer0 = ''{%''"
      by (simp_all add: Lexer0_def)
    have 1: "fst (At ''{{'' st) \<Longrightarrow> it st < it (fst (statement_branch Lexer0 st))"
      using statement_branch_advances [OF inv, of "fst (statement_branch Lexer0 st)"
          "fst (snd (statement_branch Lexer0 st))" "snd (snd (statement_branch Lexer0 st))"]
      by simp
    have 2: "fst (At ''{%'' st) \<Longrightarrow> it st < it (fst (tag_branch Lexer0 st))"
      using tag_branch_advances [OF inv, of "fst (tag_branch Lexer0 st)"
          "fst (snd (tag_branch Lexer0 st))" "snd (snd (tag_branch Lexer0 st))"]
      by simp
    have 3: "\<not> fst (At ''{{'' st) \<Longrightarrow> \<not> fst (At ''{%'' st) \<Longrightarrow>
        it st < it (snd (snd (ReadUntil (re_literal_end Lexer0) st)))"
      using h literal_read_advances [OF inv, of "fst (ReadUntil (re_literal_end Lexer0) st)"
          "fst (snd (ReadUntil (re_literal_end Lexer0) st))"
          "snd (snd (ReadUntil (re_literal_end Lexer0) st))"]
      by simp
    from 1 2 3 show "if fst (At (statement_start Lexer0) st)
       then Position st < Position (fst (statement_branch Lexer0 st))
       else if fst (At (tag_start Lexer0) st)
       then Position st < Position (fst (tag_branch Lexer0 st))
       else Position st < Position (snd (snd (ReadUntil (re_literal_end Lexer0) st)))"
      by (simp add: ds Position_def)
  qed
next
  show "visits Lexer0 src st \<and> \<not> End st \<and> step Lexer0 st = Inr (st', m, toks) \<longrightarrow>
        Position st < Position st'
        \<and> (hd toks = Token l TOKEN_TAG ''raw'' \<and> m = Unmatched \<longrightarrow> End st')"
  proof (intro impI conjI)
    assume h: "visits Lexer0 src st \<and> \<not> End st \<and> step Lexer0 st = Inr (st', m, toks)"
    then have inv: "cursor_inv st" by (auto dest: visits_inv)
    from h step_advances [OF inv, of st' m toks] show "Position st < Position st'"
      by (simp add: Position_def)
    assume r: "hd toks = Token l TOKEN_TAG ''raw'' \<and> m = Unmatched"
    from h have s: "step Lexer0 st = Inr (st', m, toks)" by simp
    have "tag_branch Lexer0 st = (st', m, toks) \<and> toks \<noteq> []"
    proof (cases "fst (At (statement_start Lexer0) st)")
      case True
      with s have "statement_branch Lexer0 st = (st', m, toks)" by (simp add: step_branches)
      then have "\<exists>ln v. toks = [Token ln TOKEN_STATEMENT v]"
        by (auto simp: statement_branch_def Let_def split: prod.splits)
      with r show ?thesis by (auto simp: TOKEN_STATEMENT_def TOKEN_TAG_def)
    next
      case False
      show ?thesis
      proof (cases "fst (At (tag_start Lexer0) st)")
        case True
        with False s have t: "tag_branch Lexer0 st = (st', m, toks)" by (simp add: step_branches)
        then have "toks \<noteq> []"
          by (auto simp: tag_branch_def Let_def split: prod.splits if_splits)
        with t show ?thesis by simp
      next
        case f: False
        with False s have "literal_branch Lexer0 st = Inr (st', m, toks)"
          by (simp add: step_branches)
        then have "\<exists>ln v. toks = [Token ln TOKEN_LITERAL v]"
          by (auto simp: literal_branch_def Let_def split: prod.splits sum.splits)
        with r show ?thesis by (auto simp: TOKEN_LITERAL_def TOKEN_TAG_def)
      qed
    qed
    with r have "tag_branch Lexer0 st = (st', Unmatched, Token l TOKEN_TAG ''raw'' # tl toks)"
      by (cases toks) auto
    then show "End st'" by (rule raw_without_endraw)
  qed
next
  show "\<exists>r. Tokenize Lexer0 src = Some r" by (rule Tokenize_returns)
qed

lemma default_lexer_progress_example:
  "visits Lexer0 ''{% raw %}abc'' (State_init ''{% raw %}abc'')
   \<and> \<not> End (State_init ''{% raw %}abc'')
   \<and> step Lexer0 (State_init ''{% raw %}abc'')
       = Inr (\<lparr>source = ''{% raw %}abc'', it = 12, linenum = 1\<rparr>, Unmatched,
              [Token 1 TOKEN_TAG ''raw'', Token 1 TOKEN_LITERAL ''abc''])
   \<and> hd [Token 1 TOKEN_TAG ''raw'', Token 1 TOKEN_LITERAL ''abc''] = Token 1 TOKEN_TAG ''raw''
   \<and> Position (State_init ''{% raw %}abc'')
       < Position \<lparr>source = ''{% raw %}abc'', it = 12, linenum = 1\<rparr>
   \<and> End \<lparr>source = ''{% raw %}abc'', it = 12, linenum = 1\<rparr>
   \<and> Position (State_init ''{% raw %}abc'')
       < Position (fst (tag_branch Lexer0 (State_init ''{% raw %}abc'')))"
proof -
  let ?src = "''{% raw %}abc''"
  have v: "visits Lexer0 ?src (State_init ?src)" by (rule visits.start)
  have e: "\<not> End (State_init ?src)" by code_simp
  have s: "step Lexer0 (State_init ?src)
       = Inr (\<lparr>source = ?src, it = 12, linenum = 1\<rparr>, Unmatched,
              [Token 1 TOKEN_TAG ''raw'', Token 1 TOKEN_LITERAL ''abc''])"
    by code_simp
  have a: "\<not> fst (At (statement_start Lexer0) (State_init ?src))"
    "fst (At (tag_start Lexer0) (State_init ?src))" by code_simp+
  from v e s a
    default_lexer_progress [of ?src "State_init ?src" "\<lparr>source = ?src, it = 12, linenum = 1\<rparr>"
      Unmatched "[Token 1 TOKEN_TAG ''raw'', Token 1 TOKEN_LITERAL ''abc'']" 1]
  show ?thesis by simp
qed

subsection \<open>The literal branch when no opening delimiter follows\<close>

lemma literal_branch_unmatched:
  assumes "regex_search (re_literal_end lx) (drop (it st) (source st)) = Unmatched"
  shows "fst (snd (ReadUntil (re_literal_end lx) st)) = Unmatched"
    and "literal_branch lx st = Inl BackOfEmptyString"
  using assms by (simp_all add: literal_branch_def ReadUntil_def Let_def string_back_def)

lemma literal_branch_matched:
  assumes "regex_search (re_literal_end lx) (drop (it st) (source st)) = Matched p s"
      and "s \<noteq> []"
  shows "\<exists>st' toks. literal_branch lx st = Inr (st', Matched p s, toks)"
  using assms by (cases s) (simp_all add: literal_branch_def ReadUntil_def Let_def string_back_def)

text \<open>
  C6. When the search for the literal-end pattern finds nothing, the matched text whose last
  character the literal branch inspects is empty, and the branch has no defined result. So it is
  for the source \<^verbatim>\<open>hello\<close>, which contains no opening delimiter: no literal token is
  produced.
\<close>

theorem literal_branch_inspects_empty_match:
  "ReadUntil (re_literal_end Lexer0) (State_init ''hello'')
     = (''hello'', Unmatched, \<lparr>source = ''hello'', it = 5, linenum = 1\<rparr>)
   \<and> str0 Unmatched = []
   \<and> string_back (str0 Unmatched) = Inl BackOfEmptyString
   \<and> literal_branch Lexer0 (State_init ''hello'') = Inl BackOfEmptyString
   \<and> Tokenize Lexer0 ''hello'' = Some (Inl BackOfEmptyString)"
  by code_simp

text \<open>
  C3. For the empty source the result is the single end-of-input token, but for the source
  \<^verbatim>\<open>a\<close> the run ends in the undefined \<^verbatim>\<open>back()\<close> of the literal branch and
  returns no token stream.
\<close>

theorem Tokenize_not_total:
  "Tokenize Lexer0 [] = Some (Inr [Token 1 TOKEN_EOF []])
   \<and> Tokenize Lexer0 ''a'' = Some (Inl BackOfEmptyString)"
  by code_simp

subsection \<open>Delimiters other than the default\<close>

lemma Lexer4_patterns:
  "re_statement_start (Lexer4 a b c d) = re_statement_start Lexer0"
  "re_statement_end (Lexer4 a b c d) = re_statement_end Lexer0"
  "re_tag_start (Lexer4 a b c d) = re_tag_start Lexer0"
  "re_tag_end (Lexer4 a b c d) = re_tag_end Lexer0"
  "re_literal_end (Lexer4 a b c d) = re_literal_end Lexer0"
  "re_name_end (Lexer4 a b c d) = re_name_end Lexer0"
  by (simp_all add: Lexer4_def Lexer0_def)

lemma Tokenize_loop_stuck:
  assumes "\<not> End st" and "step lx st = Inr (st, m, ts)"
  shows "Tokenize_loop lx st toks = None"
proof (cases "Tokenize_loop lx st toks")
  case None
  then show ?thesis .
next
  case (Some r)
  then have "\<not> (lx = lx \<and> st = st)"
  proof (rule Tokenize_loop.raw_induct
      [where P = "\<lambda>lx' st' toks' r. \<not> (lx' = lx \<and> st' = st)", rotated])
    fix loop :: "Lexer \<Rightarrow> State \<Rightarrow> Token list \<Rightarrow> (error + Token list) option"
    fix lx' st' toks' r'
    assume IH: "\<And>a b c y. loop a b c = Some y \<Longrightarrow> \<not> (a = lx \<and> b = st)"
      and body: "(if End st' then Some (Inr (toks' @ [Token (linenum st') TOKEN_EOF []]))
          else case step lx' st' of Inl e \<Rightarrow> Some (Inl e)
               | Inr (st'', m, toks) \<Rightarrow> loop lx' st'' (toks' @ toks)) = Some r'"
    show "\<not> (lx' = lx \<and> st' = st)"
    proof
      assume "lx' = lx \<and> st' = st"
      with body assms have "loop lx st (toks' @ ts) = Some r'" by simp
      with IH show False by blast
    qed
  qed
  then show ?thesis by simp
qed

lemma Tokenize_brackets_diverges:
  "Tokenize (Lexer4 ''[['' '']]'' ''[%'' ''%]'') ''{{ x }}'' = None"
proof -
  have "\<not> End (State_init ''{{ x }}'')" by code_simp
  moreover have "step (Lexer4 ''[['' '']]'' ''[%'' ''%]'') (State_init ''{{ x }}'')
      = Inr (State_init ''{{ x }}'', Matched 0 ''{{'', [Token 1 TOKEN_LITERAL []])"
    by code_simp
  ultimately show ?thesis unfolding Tokenize_def by (rule Tokenize_loop_stuck)
qed

text \<open>
  C4. The patterns of a lexer made from four delimiters do not depend on them: they are those of
  the default lexer. With the delimiters \<^verbatim>\<open>[[\<close>, \<^verbatim>\<open>]]\<close>, \<^verbatim>\<open>[%\<close>, \<^verbatim>\<open>%]\<close> the
  statement \<^verbatim>\<open>[[ x ]]\<close> is seen by \<^verbatim>\<open>At\<close> but its delimiters are not consumed, and
  the whole source becomes the statement's text; on the source \<^verbatim>\<open>{{ x }}\<close> the loop pushes
  empty literal tokens without moving and never returns.
\<close>

theorem Lexer4_patterns_fixed:
  "re_statement_start (Lexer4 a b c d) = re_statement_start Lexer0
   \<and> re_statement_end (Lexer4 a b c d) = re_statement_end Lexer0
   \<and> re_tag_start (Lexer4 a b c d) = re_tag_start Lexer0
   \<and> re_tag_end (Lexer4 a b c d) = re_tag_end Lexer0
   \<and> re_literal_end (Lexer4 a b c d) = re_literal_end Lexer0
   \<and> re_name_end (Lexer4 a b c d) = re_name_end Lexer0
   \<and> Tokenize (Lexer4 ''[['' '']]'' ''[%'' ''%]'') ''[[ x ]]''
       = Some (Inr [Token 1 TOKEN_STATEMENT ''[[ x ]]'', Token 1 TOKEN_EOF []])
   \<and> Tokenize (Lexer4 ''[['' '']]'' ''[%'' ''%]'') ''{{ x }}'' = None"
proof -
  have "Tokenize (Lexer4 ''[['' '']]'' ''[%'' ''%]'') ''[[ x ]]''
       = Some (Inr [Token 1 TOKEN_STATEMENT ''[[ x ]]'', Token 1 TOKEN_EOF []])"
    by code_simp
  with Lexer4_patterns [of a b c d] Tokenize_brackets_diverges show ?thesis by simp
qed

subsection \<open>The leftmost match\<close>

lemma regex_search_Matched:
  "regex_search r s = Matched p e \<Longrightarrow>
     p \<le> length s \<and> (\<exists>n. match_here r (drop p s) = Some n \<and> e = take n (drop p s))
     \<and> (\<forall>q < p. match_here r (drop q s) = None)"
proof (induction s arbitrary: p)
  case Nil
  then show ?case by (auto split: option.splits)
next
  case (Cons x xs)
  show ?case
  proof (cases "match_here r (x # xs)")
    case None
    with Cons.prems obtain q where q: "regex_search r xs = Matched q e" "p = Suc q"
      by (cases "regex_search r xs") auto
    from Cons.IH [OF q(1)] have ih: "q \<le> length xs"
      "\<exists>n. match_here r (drop q xs) = Some n \<and> e = take n (drop q xs)"
      "\<forall>q' < q. match_here r (drop q' xs) = None" by blast+
    have "match_here r (drop q' (x # xs)) = None" if "q' < p" for q'
    proof (cases q')
      case 0
      with None show ?thesis by simp
    next
      case (Suc k)
      with that q(2) ih(3) show ?thesis by simp
    qed
    with ih(1,2) q(2) show ?thesis by simp
  next
    case (Some n)
    with Cons.prems show ?thesis by auto
  qed
qed

lemma regex_search_Unmatched:
  "regex_search r s = Unmatched \<Longrightarrow> q \<le> length s \<Longrightarrow> match_here r (drop q s) = None"
proof (induction s arbitrary: q)
  case Nil
  then show ?case by (auto split: option.splits)
next
  case (Cons x xs)
  from Cons.prems(1) have n: "match_here r (x # xs) = None" and u: "regex_search r xs = Unmatched"
    by (auto split: option.splits elim: shift.elims)
  show ?case
  proof (cases q)
    case 0
    with n show ?thesis by simp
  next
    case (Suc k)
    with Cons.prems(2) Cons.IH [OF u, of k] show ?thesis by simp
  qed
qed

subsection \<open>How a sequence of terms matches\<close>

lemma match_once:
  "match_terms ((a, Once) # ts) s = Some n \<longleftrightarrow>
     (\<exists>x xs k. s = x # xs \<and> atom_matches a x \<and> match_terms ts xs = Some k \<and> n = Suc k)"
  by (cases s) auto

lemma match_optional:
  "match_terms ((a, Optional) # ts) s = Some n \<Longrightarrow>
     (\<exists>x xs k. s = x # xs \<and> atom_matches a x \<and> match_terms ts xs = Some k \<and> n = Suc k)
     \<or> match_terms ts s = Some n"
  by (cases s) (auto split: if_splits option.splits)

lemma match_many:
  "match_terms ((a, Many) # ts) s = Some n \<Longrightarrow>
     \<exists>w s' k. s = w @ s' \<and> (\<forall>c \<in> set w. atom_matches a c) \<and> match_terms ts s' = Some k
       \<and> n = length w + k"
proof (induction s arbitrary: n)
  case Nil
  then show ?case by auto
next
  case (Cons x xs)
  show ?case
  proof (cases "atom_matches a x \<and> match_terms ((a, Many) # ts) xs \<noteq> None")
    case True
    then obtain n' where n': "match_terms ((a, Many) # ts) xs = Some n'" by auto
    with True Cons.prems have n: "n = Suc n'" by simp
    from Cons.IH [OF n'] obtain w s' k where
      "xs = w @ s'" "\<forall>c \<in> set w. atom_matches a c" "match_terms ts s' = Some k" "n' = length w + k"
      by blast
    with True n have "x # xs = (x # w) @ s' \<and> (\<forall>c \<in> set (x # w). atom_matches a c)
        \<and> match_terms ts s' = Some k \<and> n = length (x # w) + k" by simp
    then show ?thesis by blast
  next
    case False
    with Cons.prems have "match_terms ts (x # xs) = Some n" by (auto split: if_splits)
    then have "x # xs = [] @ (x # xs) \<and> (\<forall>c \<in> set []. atom_matches a c)
        \<and> match_terms ts (x # xs) = Some n \<and> n = length ([] :: string) + n" by simp
    then show ?thesis by blast
  qed
qed

text \<open>A run of matching characters in front of a successful match is taken whole.\<close>

lemma match_many_run:
  assumes "\<forall>c \<in> set w. atom_matches a c" and "match_terms ((a, Many) # ts) s = Some k"
  shows "match_terms ((a, Many) # ts) (w @ s) = Some (length w + k)"
  using assms by (induction w) auto

lemma match_many_stop:
  assumes "s = [] \<or> \<not> atom_matches a (hd s)"
  shows "match_terms ((a, Many) # ts) s = match_terms ts s"
  using assms by (cases s) auto

subsection \<open>The delimiters of the default lexer\<close>

lemma dash_space_split:
  "\<exists>d w r'. r = d @ w @ r' \<and> (d = [] \<or> d = ''-'') \<and> (\<forall>c \<in> set w. isspace c)
     \<and> (r' = [] \<or> \<not> isspace (hd r'))
     \<and> match_terms [(Chr CHR ''-'', Optional), (Space, Many)] r = Some (length d + length w)"
proof (cases "prefix ''-'' r")
  case True
  then obtain xs where r: "r = CHR ''-'' # xs" by (auto simp: prefix_def)
  let ?w = "takeWhile isspace xs" and ?r = "dropWhile isspace xs"
  have "r = ''-'' @ ?w @ ?r" by (simp add: r)
  moreover have "\<forall>c \<in> set ?w. isspace c" by (auto dest: set_takeWhileD)
  moreover have "?r = [] \<or> \<not> isspace (hd ?r)" using hd_dropWhile [of isspace xs] by blast
  moreover have "match_terms [(Chr CHR ''-'', Optional), (Space, Many)] r
      = Some (length ''-'' + length ?w)" by (simp add: r match_many_space)
  ultimately show ?thesis by blast
next
  case False
  let ?w = "takeWhile isspace r" and ?r = "dropWhile isspace r"
  have "r = [] @ ?w @ ?r" by simp
  moreover have "\<forall>c \<in> set ?w. isspace c" by (auto dest: set_takeWhileD)
  moreover have "?r = [] \<or> \<not> isspace (hd ?r)" using hd_dropWhile [of isspace r] by blast
  moreover from False have "match_terms [(Chr CHR ''-'', Optional), (Space, Many)] r
      = Some (length ([] :: string) + length ?w)"
    by (cases r) (auto simp: match_many_space)
  ultimately show ?thesis by blast
qed

lemma statement_start_split:
  assumes "prefix ''{{'' s"
  shows "\<exists>d w r'. s = ''{{'' @ d @ w @ r' \<and> (d = [] \<or> d = ''-'') \<and> (\<forall>c \<in> set w. isspace c)
     \<and> (r' = [] \<or> \<not> isspace (hd r'))
     \<and> match_here (re_statement_start Lexer0) s = Some (length (''{{'' @ d @ w))"
proof -
  from assms obtain r where s: "s = CHR ''{'' # CHR ''{'' # r" by (auto simp: prefix_def)
  from dash_space_split [of r] obtain d w r' where
    "r = d @ w @ r'" "d = [] \<or> d = ''-''" "\<forall>c \<in> set w. isspace c" "r' = [] \<or> \<not> isspace (hd r')"
    "match_terms [(Chr CHR ''-'', Optional), (Space, Many)] r = Some (length d + length w)"
    by blast
  then have "s = ''{{'' @ d @ w @ r' \<and> (d = [] \<or> d = ''-'') \<and> (\<forall>c \<in> set w. isspace c)
     \<and> (r' = [] \<or> \<not> isspace (hd r'))
     \<and> match_here (re_statement_start Lexer0) s = Some (length (''{{'' @ d @ w))"
    by (simp add: s Lexer0_def)
  then show ?thesis by blast
qed

lemma statement_end_split:
  assumes "match_here (re_statement_end Lexer0) s = Some n"
  shows "\<exists>w d. (\<forall>c \<in> set w. isspace c) \<and> (d = [] \<or> d = ''-'') \<and> take n s = w @ d @ ''}}''"
proof -
  from assms have "match_terms [(Space, Many), (Chr CHR ''-'', Optional), (Chr CHR ''}'', Once),
      (Chr CHR ''}'', Once)] s = Some n"
    by (simp add: Lexer0_def split: option.splits)
  from match_many [OF this] obtain w s1 k1 where
    1: "s = w @ s1" "\<forall>c \<in> set w. isspace c" "n = length w + k1"
    and m1: "match_terms [(Chr CHR ''-'', Optional), (Chr CHR ''}'', Once), (Chr CHR ''}'', Once)] s1
        = Some k1"
    by auto
  have "\<exists>d. (d = [] \<or> d = ''-'') \<and> take k1 s1 = d @ ''}}''"
    using match_optional [OF m1]
  proof
    assume "\<exists>x xs k. s1 = x # xs \<and> atom_matches (Chr CHR ''-'') x
        \<and> match_terms [(Chr CHR ''}'', Once), (Chr CHR ''}'', Once)] xs = Some k \<and> k1 = Suc k"
    then obtain xs k where "s1 = CHR ''-'' # xs" "k1 = Suc k"
      "match_terms [(Chr CHR ''}'', Once), (Chr CHR ''}'', Once)] xs = Some k" by auto
    then have "take k1 s1 = ''-'' @ ''}}''" by (auto simp: match_once)
    then show ?thesis by blast
  next
    assume "match_terms [(Chr CHR ''}'', Once), (Chr CHR ''}'', Once)] s1 = Some k1"
    then have "take k1 s1 = [] @ ''}}''" by (auto simp: match_once)
    then show ?thesis by blast
  qed
  then obtain d where "d = [] \<or> d = ''-''" "take k1 s1 = d @ ''}}''" by blast
  with 1 have "(\<forall>c \<in> set w. isspace c) \<and> (d = [] \<or> d = ''-'') \<and> take n s = w @ d @ ''}}''"
    by simp
  then show ?thesis by blast
qed

lemma statement_end_extends_left:
  assumes "isspace x" and "match_here (re_statement_end Lexer0) xs = Some n"
  shows "match_here (re_statement_end Lexer0) (x # xs) = Some (Suc n)"
  using assms by (simp add: Lexer0_def split: option.splits)

lemma statement_end_at_braces:
  assumes "prefix ''}}'' s"
  shows "match_here (re_statement_end Lexer0) s = Some 2"
proof -
  from assms obtain r where "s = CHR ''}'' # CHR ''}'' # r" by (auto simp: prefix_def)
  then show ?thesis by (simp add: Lexer0_def isspace_def)
qed

subsection \<open>The statement branch\<close>

lemma Read_here:
  assumes "match_here r (drop (it st) (source st)) = Some n"
  shows "Read r st =
     (take n (drop (it st) (source st)), Matched 0 (take n (drop (it st) (source st))),
      st\<lparr>it := it st + n,
         linenum := linenum st + count_newlines (take n (drop (it st) (source st)))\<rparr>)"
proof -
  let ?rest = "drop (it st) (source st)"
  from assms have "regex_search r ?rest = Matched 0 (take n ?rest)"
    by (rule regex_search_here)
  moreover from assms have "n \<le> length ?rest" by (rule match_here_le)
  ultimately show ?thesis by (simp add: Read_def Let_def substr_def Position_def min_absorb2)
qed

lemma ReadUntil_Matched:
  assumes "regex_search r (drop (it st) (source st)) = Matched p e"
  shows "ReadUntil r st =
     (take p (drop (it st) (source st)), Matched p e,
      st\<lparr>it := it st + p,
         linenum := linenum st + count_newlines (take p (drop (it st) (source st)))\<rparr>)"
  using assms by (simp add: ReadUntil_def Let_def substr_def Position_def)

lemma ReadUntil_Unmatched:
  assumes "regex_search r (drop (it st) (source st)) = Unmatched"
  shows "ReadUntil r st =
     (drop (it st) (source st), Unmatched,
      st\<lparr>it := length (source st),
         linenum := linenum st + count_newlines (drop (it st) (source st))\<rparr>)"
  using assms by (simp add: ReadUntil_def Let_def substr_from_def Position_def)

lemma statement_branch_tokens:
  assumes "Read (re_statement_start lx) st = (s, m1, st1)"
      and "ReadUntil (re_statement_end lx) st1 = (v, m2, st2)"
  shows "snd (snd (statement_branch lx st)) = [Token (linenum st1) TOKEN_STATEMENT v]"
  using assms by (simp add: statement_branch_def Let_def split: prod.splits)

text \<open>The text read up to the first statement-end pattern.\<close>

lemma statement_body:
  assumes "r' = [] \<or> \<not> isspace (hd r')"
      and "ReadUntil (re_statement_end Lexer0) st1 = (v, m2, st2)"
      and "drop (it st1) (source st1) = r'"
  shows "\<exists>rest. r' = v @ rest
         \<and> (v \<noteq> [] \<longrightarrow> \<not> isspace (hd v))
         \<and> (\<forall>q < length v. \<not> prefix ''}}'' (drop q (v @ rest)))
         \<and> (rest = [] \<or>
             (v \<noteq> [] \<longrightarrow> \<not> isspace (last v))
             \<and> (\<exists>w' d'. (\<forall>c \<in> set w'. isspace c) \<and> (d' = [] \<or> d' = ''-'')
                  \<and> prefix (w' @ d' @ ''}}'') rest))"
proof (cases "regex_search (re_statement_end Lexer0) r'")
  case Unmatched
  with assms(2,3) have v: "v = r'" by (simp add: ReadUntil_Unmatched)
  have "\<not> prefix ''}}'' (drop q r')" if "q < length r'" for q
  proof
    assume "prefix ''}}'' (drop q r')"
    then have "match_here (re_statement_end Lexer0) (drop q r') = Some 2"
      by (rule statement_end_at_braces)
    moreover from that have "match_here (re_statement_end Lexer0) (drop q r') = None"
      using regex_search_Unmatched [OF Unmatched, of q] by simp
    ultimately show False by simp
  qed
  with v assms(1) have "r' = v @ [] \<and> (v \<noteq> [] \<longrightarrow> \<not> isspace (hd v))
         \<and> (\<forall>q < length v. \<not> prefix ''}}'' (drop q (v @ [])))" by auto
  then show ?thesis by blast
next
  case (Matched p e)
  with assms(2,3) have v: "v = take p r'" by (simp add: ReadUntil_Matched)
  from regex_search_Matched [OF Matched] obtain n where
    p: "p \<le> length r'" and n: "match_here (re_statement_end Lexer0) (drop p r') = Some n"
    and first: "\<forall>q < p. match_here (re_statement_end Lexer0) (drop q r') = None"
    by blast
  let ?rest = "drop p r'"
  have split: "r' = v @ ?rest" by (simp add: v)
  from p v have lv: "length v = p" by simp
  have hd: "v \<noteq> [] \<longrightarrow> \<not> isspace (hd v)"
  proof
    assume "v \<noteq> []"
    with v have "r' \<noteq> []" "hd v = hd r'" by (auto simp: hd_take)
    with assms(1) show "\<not> isspace (hd v)" by simp
  qed
  have nobr: "\<not> prefix ''}}'' (drop q (v @ ?rest))" if "q < length v" for q
  proof
    assume "prefix ''}}'' (drop q (v @ ?rest))"
    then have "match_here (re_statement_end Lexer0) (drop q r') = Some 2"
      using statement_end_at_braces split by simp
    with first that lv show False by simp
  qed
  have la: "v \<noteq> [] \<longrightarrow> \<not> isspace (last v)"
  proof (intro impI notI)
    assume ne: "v \<noteq> []" and sp: "isspace (last v)"
    with lv have p0: "0 < p" by auto
    with p have "drop (p - 1) r' = r' ! (p - 1) # drop p r'"
      by (metis Cons_nth_drop_Suc Suc_pred' less_le_trans lessI not_less)
    moreover from ne v lv p0 have "last v = r' ! (p - 1)"
      by (simp add: last_conv_nth)
    ultimately have "match_here (re_statement_end Lexer0) (drop (p - 1) r') = Some (Suc n)"
      using sp n by (simp add: statement_end_extends_left)
    with first p0 show False by simp
  qed
  from statement_end_split [OF n] obtain w' d' where
    "\<forall>c \<in> set w'. isspace c" "d' = [] \<or> d' = ''-''" "take n ?rest = w' @ d' @ ''}}''" by blast
  moreover from this(3) have "prefix (w' @ d' @ ''}}'') ?rest"
    by (metis take_is_prefix)
  ultimately have "\<exists>w' d'. (\<forall>c \<in> set w'. isspace c) \<and> (d' = [] \<or> d' = ''-'')
                  \<and> prefix (w' @ d' @ ''}}'') ?rest" by blast
  with split hd nobr la show ?thesis by blast
qed

lemma count_newlines_delims:
  assumes "d = [] \<or> d = ''-''"
  shows "count_newlines (''{{'' @ d @ w) = count_newlines w"
  using assms by (auto simp: count_newlines_def)


subsection \<open>The end-raw pattern\<close>

lemma match_optional_skip:
  assumes "s = [] \<or> \<not> atom_matches a (hd s)"
  shows "match_terms ((a, Optional) # ts) s = match_terms ts s"
  using assms by (cases s) auto

lemma match_space_run:
  assumes "\<forall>c \<in> set w. isspace c" and "s = [] \<or> \<not> isspace (hd s)"
      and "match_terms ts s = Some k"
  shows "match_terms ((Space, Many) # ts) (w @ s) = Some (length w + k)"
proof -
  from assms(2,3) have "match_terms ((Space, Many) # ts) s = Some k"
    by (simp add: match_many_stop)
  with assms(1) show ?thesis by (simp add: match_many_run)
qed

lemma match_dash:
  assumes "match_terms ((Chr CHR ''-'', Optional) # ts) s = Some n"
  obtains d s' k where "s = d @ s'" "d = [] \<or> d = ''-''" "n = length d + k"
    "match_terms ts s' = Some k"
proof -
  from match_optional [OF assms] consider
    (take) xs k where "s = CHR ''-'' # xs" "match_terms ts xs = Some k" "n = Suc k"
    | (skip) "match_terms ts s = Some n" by auto
  then show ?thesis
  proof cases
    case take
    then have "s = ''-'' @ xs" "n = length ''-'' + k" by simp_all
    with take(2) show ?thesis using that by blast
  next
    case skip
    then show ?thesis using that [of "[]" s n] by simp
  qed
qed

lemma match_space:
  assumes "match_terms ((Space, Many) # ts) s = Some n"
  obtains w s' k where "s = w @ s'" "\<forall>c \<in> set w. isspace c" "n = length w + k"
    "match_terms ts s' = Some k"
  using match_many [OF assms] by auto

lemma match_percent_brace:
  assumes "match_terms [(Chr CHR ''%'', Once), (Chr CHR ''}'', Once)] s = Some n"
  obtains s' where "s = ''%}'' @ s'" "n = 2"
  using assms by (auto simp: match_once)

lemma endraw_match_is_endraw:
  assumes "match_here re_endraw s = Some n"
  shows "is_endraw (take n s)"
proof -
  let ?t6 = "[(Chr CHR ''%'', Once), (Chr CHR ''}'', Once)]"
  let ?t5 = "(Chr CHR ''-'', Optional) # ?t6"
  let ?t4 = "(Space, Many) # ?t5"
  let ?t3 = "[(Chr CHR ''e'', Once), (Chr CHR ''n'', Once), (Chr CHR ''d'', Once),
      (Chr CHR ''r'', Once), (Chr CHR ''a'', Once), (Chr CHR ''w'', Once)] @ ?t4"
  let ?t2 = "(Space, Many) # ?t3"
  let ?t1 = "(Chr CHR ''-'', Optional) # ?t2"
  from assms have "match_terms ((Chr CHR ''{'', Once) # (Chr CHR ''%'', Once) # ?t1) s = Some n"
    by (simp add: re_endraw_def split: option.splits)
  then obtain s1 k1 where 1: "s = ''{%'' @ s1" "n = 2 + k1"
    and m1: "match_terms ?t1 s1 = Some k1"
    by (auto simp: match_once)
  from m1 obtain d1 s2 k2 where 2: "s1 = d1 @ s2" "d1 = [] \<or> d1 = ''-''" "k1 = length d1 + k2"
    and m2: "match_terms ?t2 s2 = Some k2" by (rule match_dash)
  from m2 obtain w1 s3 k3 where 3: "s2 = w1 @ s3" "\<forall>c \<in> set w1. isspace c" "k2 = length w1 + k3"
    and m3: "match_terms ?t3 s3 = Some k3" by (rule match_space)
  from m3 obtain s4 k4 where 4: "s3 = ''endraw'' @ s4" "k3 = 6 + k4"
    and m4: "match_terms ?t4 s4 = Some k4"
    by (auto simp: match_once)
  from m4 obtain w2 s5 k5 where 5: "s4 = w2 @ s5" "\<forall>c \<in> set w2. isspace c" "k4 = length w2 + k5"
    and m5: "match_terms ?t5 s5 = Some k5" by (rule match_space)
  from m5 obtain d2 s6 k6 where 6: "s5 = d2 @ s6" "d2 = [] \<or> d2 = ''-''" "k5 = length d2 + k6"
    and m6: "match_terms ?t6 s6 = Some k6" by (rule match_dash)
  from m6 obtain s7 where 7: "s6 = ''%}'' @ s7" "k6 = 2" by (rule match_percent_brace)
  let ?t = "''{%'' @ d1 @ w1 @ ''endraw'' @ w2 @ d2 @ ''%}''"
  from 1 2 3 4 5 6 7 have "s = ?t @ s7" "n = length ?t" by simp_all
  then have "take n s = ?t" by (metis append_eq_conv_conj)
  with 2(2) 6(2) 3(2) 5(2) show ?thesis
    unfolding is_endraw_def list_all_iff by blast
qed

lemma space_not_special:
  assumes "isspace c"
  shows "c \<noteq> CHR ''-''" "c \<noteq> CHR ''%''" "c \<noteq> CHR ''e''"
  using assms by (auto simp: isspace_def)

lemma is_endraw_matches:
  assumes "is_endraw t"
  shows "match_here re_endraw (t @ s) = Some (length t)"
proof -
  from assms obtain d1 w1 w2 d2 where
    t: "t = ''{%'' @ d1 @ w1 @ ''endraw'' @ w2 @ d2 @ ''%}''"
    and d1: "d1 = [] \<or> d1 = ''-''" and d2: "d2 = [] \<or> d2 = ''-''"
    and w1: "\<forall>c \<in> set w1. isspace c" and w2: "\<forall>c \<in> set w2. isspace c"
    unfolding is_endraw_def list_all_iff by blast
  let ?t6 = "[(Chr CHR ''%'', Once), (Chr CHR ''}'', Once)]"
  let ?t5 = "(Chr CHR ''-'', Optional) # ?t6"
  let ?t4 = "(Space, Many) # ?t5"
  let ?t3 = "[(Chr CHR ''e'', Once), (Chr CHR ''n'', Once), (Chr CHR ''d'', Once),
      (Chr CHR ''r'', Once), (Chr CHR ''a'', Once), (Chr CHR ''w'', Once)] @ ?t4"
  let ?t2 = "(Space, Many) # ?t3"
  let ?t1 = "(Chr CHR ''-'', Optional) # ?t2"
  have m5: "match_terms ?t5 (d2 @ ''%}'' @ s) = Some (length d2 + 2)"
    using d2 by auto
  have "d2 @ ''%}'' @ s = [] \<or> \<not> isspace (hd (d2 @ ''%}'' @ s))"
    using d2 by (auto simp: isspace_def)
  from match_space_run [OF w2 this m5]
  have m4: "match_terms ?t4 (w2 @ d2 @ ''%}'' @ s) = Some (length w2 + (length d2 + 2))" .
  then have m3: "match_terms ?t3 (''endraw'' @ w2 @ d2 @ ''%}'' @ s)
      = Some (6 + (length w2 + (length d2 + 2)))"
    by simp
  have "\<not> isspace (hd (''endraw'' @ w2 @ d2 @ ''%}'' @ s))" by (simp add: isspace_def)
  then have "''endraw'' @ w2 @ d2 @ ''%}'' @ s = []
      \<or> \<not> isspace (hd (''endraw'' @ w2 @ d2 @ ''%}'' @ s))" by blast
  from match_space_run [OF w1 this m3]
  have m2: "match_terms ?t2 (w1 @ ''endraw'' @ w2 @ d2 @ ''%}'' @ s)
      = Some (length w1 + (6 + (length w2 + (length d2 + 2))))" .
  have m1: "match_terms ?t1 (d1 @ w1 @ ''endraw'' @ w2 @ d2 @ ''%}'' @ s)
      = Some (length d1 + (length w1 + (6 + (length w2 + (length d2 + 2)))))"
  proof (cases "d1 = []")
    case True
    have "hd (w1 @ ''endraw'' @ w2 @ d2 @ ''%}'' @ s) \<noteq> CHR ''-''"
      using w1 by (cases w1) (auto dest: space_not_special)
    then have "match_terms ?t1 (w1 @ ''endraw'' @ w2 @ d2 @ ''%}'' @ s)
        = match_terms ?t2 (w1 @ ''endraw'' @ w2 @ d2 @ ''%}'' @ s)"
      by (intro match_optional_skip) simp
    with m2 True show ?thesis by simp
  next
    case False
    with d1 have "d1 = ''-''" by simp
    with m2 show ?thesis by simp
  qed
  then have "match_terms ((Chr CHR ''{'', Once) # (Chr CHR ''%'', Once) # ?t1) (t @ s)
      = Some (length t)"
    by (simp add: t)
  then show ?thesis by (simp add: re_endraw_def)
qed

lemma endraw_here_iff:
  "match_here re_endraw s \<noteq> None \<longleftrightarrow> (\<exists>t. is_endraw t \<and> prefix t s)"
proof
  assume "match_here re_endraw s \<noteq> None"
  then obtain n where "match_here re_endraw s = Some n" by auto
  then have "is_endraw (take n s)" by (rule endraw_match_is_endraw)
  moreover have "prefix (take n s) s" by (rule take_is_prefix)
  ultimately show "\<exists>t. is_endraw t \<and> prefix t s" by blast
next
  assume "\<exists>t. is_endraw t \<and> prefix t s"
  then obtain t r where "is_endraw t" "s = t @ r" by (auto simp: prefix_def)
  then show "match_here re_endraw s \<noteq> None" by (simp add: is_endraw_matches)
qed

lemma strip_Nil: "strip [] = []"
  by (simp add: strip_def lstrip_def rstrip_def)

lemma name_end_after_endraw:
  assumes "d2 = [] \<or> d2 = ''-''" and "\<forall>c \<in> set w2. isspace c"
  shows "\<exists>k. match_here (re_name_end Lexer0) (w2 @ d2 @ ''%}'' @ r) = Some k"
proof (cases w2)
  case Nil
  with assms(1) show ?thesis by (auto simp: Lexer0_def isspace_def)
next
  case (Cons c w)
  with assms(2) show ?thesis by (simp add: Lexer0_def)
qed

lemma name_end_search_endraw:
  assumes "match_here (re_name_end Lexer0) tail = Some k"
  shows "regex_search (re_name_end Lexer0) (''endraw'' @ tail) = Matched 6 (take k tail)"
proof -
  from assms have "regex_search (re_name_end Lexer0) tail = Matched 0 (take k tail)"
    by (rule regex_search_here)
  moreover have "match_here (re_name_end Lexer0) (c # s) = None"
    if "c \<in> set ''endraw''" for c s
    using that by (auto simp: Lexer0_def isspace_def)
  ultimately show ?thesis by simp
qed

lemma tag_end_after_endraw:
  assumes "d2 = [] \<or> d2 = ''-''" and "\<forall>c \<in> set w2. isspace c"
  shows "match_here (re_tag_end Lexer0) (w2 @ d2 @ ''%}'' @ r) = Some (length w2 + (length d2 + 2))"
proof -
  have m: "match_terms [(Chr CHR ''-'', Optional), (Chr CHR ''%'', Once), (Chr CHR ''}'', Once)]
      (d2 @ ''%}'' @ r) = Some (length d2 + 2)"
    using assms(1) by auto
  have "d2 @ ''%}'' @ r = [] \<or> \<not> isspace (hd (d2 @ ''%}'' @ r))"
    using assms(1) by (auto simp: isspace_def)
  from match_space_run [OF assms(2) this m] show ?thesis by (simp add: Lexer0_def)
qed

lemma tag_start_before_endraw:
  assumes "d1 = [] \<or> d1 = ''-''" and "\<forall>c \<in> set w1. isspace c"
  shows "match_here (re_tag_start Lexer0) (''{%'' @ d1 @ w1 @ ''endraw'' @ r)
         = Some (length (''{%'' @ d1 @ w1))"
proof -
  have "''endraw'' @ r = [] \<or> \<not> isspace (hd (''endraw'' @ r))" by (simp add: isspace_def)
  moreover have "match_terms [] (''endraw'' @ r) = Some 0" by simp
  ultimately have m2: "match_terms [(Space, Many)] (w1 @ ''endraw'' @ r) = Some (length w1 + 0)"
    using assms(2) by (intro match_space_run) 
  have m1: "match_terms [(Chr CHR ''-'', Optional), (Space, Many)] (d1 @ w1 @ ''endraw'' @ r)
      = Some (length d1 + length w1)"
  proof (cases "d1 = []")
    case True
    have "hd (w1 @ ''endraw'' @ r) \<noteq> CHR ''-''"
      using assms(2) by (cases w1) (auto dest: space_not_special)
    then have "match_terms [(Chr CHR ''-'', Optional), (Space, Many)] (w1 @ ''endraw'' @ r)
        = match_terms [(Space, Many)] (w1 @ ''endraw'' @ r)"
      by (intro match_optional_skip) simp
    with m2 True show ?thesis by simp
  next
    case False
    with assms(1) have "d1 = ''-''" by simp
    with m2 show ?thesis by simp
  qed
  then show ?thesis by (simp add: Lexer0_def)
qed

text \<open>An iteration entered at an end-raw tag pushes the tag token \<^verbatim>\<open>endraw\<close> and nothing
  else.\<close>

lemma endraw_step:
  assumes inv: "cursor_inv st" and t: "is_endraw t" and p: "prefix t (drop (it st) (source st))"
  shows "\<exists>st' m l. step Lexer0 st = Inr (st', m, [Token l TOKEN_TAG ''endraw''])"
proof -
  let ?rest = "drop (it st) (source st)"
  from t obtain d1 w1 w2 d2 where
    t': "t = ''{%'' @ d1 @ w1 @ ''endraw'' @ w2 @ d2 @ ''%}''"
    and d1: "d1 = [] \<or> d1 = ''-''" and d2: "d2 = [] \<or> d2 = ''-''"
    and w1: "\<forall>c \<in> set w1. isspace c" and w2: "\<forall>c \<in> set w2. isspace c"
    unfolding is_endraw_def list_all_iff by blast
  from p obtain r where "?rest = t @ r" by (auto simp: prefix_def)
  with t' have rest: "?rest = ''{%'' @ d1 @ w1 @ ''endraw'' @ w2 @ d2 @ ''%}'' @ r" by simp
  let ?tail = "w2 @ d2 @ ''%}'' @ r"
  let ?n1 = "length (''{%'' @ d1 @ w1)"
  from inv rest have at: "\<not> fst (At ''{{'' st)" "fst (At ''{%'' st)"
    by (simp_all add: At_prefix cursor_inv_def)
  \<comment> \<open>the tag start\<close>
  have "match_here (re_tag_start Lexer0) ?rest = Some ?n1"
    unfolding rest using tag_start_before_endraw [OF d1 w1, of "w2 @ d2 @ ''%}'' @ r"] by simp
  from Read_here [OF this] obtain s1 m1 st1 where
    r1: "Read (re_tag_start Lexer0) st = (s1, m1, st1)"
    and st1: "it st1 = it st + ?n1" "source st1 = source st" by simp
  have "drop (it st1) (source st1) = drop ?n1 ?rest" by (simp add: st1 add.commute)
  also have "\<dots> = ''endraw'' @ ?tail" unfolding rest by simp
  finally have rest1: "drop (it st1) (source st1) = ''endraw'' @ ?tail" .
  \<comment> \<open>the name\<close>
  from name_end_after_endraw [OF d2 w2] obtain k where
    "match_here (re_name_end Lexer0) ?tail = Some k" by blast
  then have "regex_search (re_name_end Lexer0) (drop (it st1) (source st1))
      = Matched 6 (take k ?tail)"
    unfolding rest1 by (rule name_end_search_endraw)
  from ReadUntil_Matched [OF this] obtain m2 st2 where
    r2: "ReadUntil (re_name_end Lexer0) st1 = (''endraw'', m2, st2)"
    and st2: "it st2 = it st1 + 6" "source st2 = source st1"
    by (simp add: rest1)
  have "drop (it st2) (source st2) = drop 6 (drop (it st1) (source st1))"
    by (simp add: st2 add.commute)
  then have rest2: "drop (it st2) (source st2) = ?tail" unfolding rest1 by simp
  \<comment> \<open>the expression\<close>
  have "match_here (re_tag_end Lexer0) (drop (it st2) (source st2))
      = Some (length w2 + (length d2 + 2))"
    unfolding rest2 by (rule tag_end_after_endraw [OF d2 w2])
  then have "regex_search (re_tag_end Lexer0) (drop (it st2) (source st2))
      = Matched 0 (take (length w2 + (length d2 + 2)) (drop (it st2) (source st2)))"
    by (rule regex_search_here)
  from ReadUntil_Matched [OF this] obtain m3 st3 where
    r3: "ReadUntil (re_tag_end Lexer0) st2 = ([], m3, st3)" by simp
  obtain m4 st4 where r4: "EatEnd (re_tag_end Lexer0) (strip_tags Lexer0) st3 = (m4, st4)"
    by (metis prod.exhaust)
  obtain lit m5 st5 where r5: "ReadUntil re_endraw st4 = (lit, m5, st5)"
    by (metis prod_cases3)
  have ne: "''endraw'' \<noteq> ''raw''" by simp
  from tag_branch_tokens [OF r1 r2 r3 r4 r5]
  have "tag_branch Lexer0 st = (st4, m4, [Token (linenum st1) TOKEN_TAG ''endraw''])"
    by (simp only: ne strip_Nil if_False simp_thms append_Nil2)
  with at show ?thesis by (simp add: step_branches Lexer0_def)
qed

subsection \<open>The raw tag\<close>

text \<open>The text read after a raw tag, from a cursor within the source.\<close>

lemma raw_body:
  assumes inv: "cursor_inv st4" and r5: "ReadUntil re_endraw st4 = (lit, m5, st5)"
  shows "\<exists>rest. drop (it st4) (source st4) = lit @ rest
         \<and> it st5 = it st4 + length lit
         \<and> (\<forall>q < length lit. \<not> (\<exists>t. is_endraw t \<and> prefix t (drop q (lit @ rest))))
         \<and> (rest = [] \<or>
             (\<exists>t. is_endraw t \<and> prefix t rest)
             \<and> (\<exists>st'' m'' l''. step Lexer0 st5 = Inr (st'', m'', [Token l'' TOKEN_TAG ''endraw''])))"
proof (cases "regex_search re_endraw (drop (it st4) (source st4))")
  case Unmatched
  let ?rest4 = "drop (it st4) (source st4)"
  from r5 have lit: "lit = ?rest4" and it5: "it st5 = length (source st4)"
    by (auto simp: ReadUntil_Unmatched [OF Unmatched])
  have "\<not> (\<exists>t. is_endraw t \<and> prefix t (drop q ?rest4))" if "q < length ?rest4" for q
    using regex_search_Unmatched [OF Unmatched, of q] that
    by (simp add: endraw_here_iff [symmetric])
  with lit it5 inv have "?rest4 = lit @ [] \<and> it st5 = it st4 + length lit
         \<and> (\<forall>q < length lit. \<not> (\<exists>t. is_endraw t \<and> prefix t (drop q (lit @ []))))"
    by (simp add: cursor_inv_def)
  then show ?thesis by blast
next
  case (Matched p e)
  let ?rest4 = "drop (it st4) (source st4)"
  let ?rest = "drop p ?rest4"
  from regex_search_Matched [OF Matched] obtain n where
    p: "p \<le> length ?rest4" and n: "match_here re_endraw ?rest = Some n"
    and first: "\<forall>q < p. match_here re_endraw (drop q ?rest4) = None"
    by blast
  from r5 have lit: "lit = take p ?rest4" and st5: "it st5 = it st4 + p" "source st5 = source st4"
    by (auto simp: ReadUntil_Matched [OF Matched])
  from lit p have len: "length lit = p" by simp
  have split: "?rest4 = lit @ ?rest" by (simp only: lit append_take_drop_id)
  have nomatch: "\<not> (\<exists>t. is_endraw t \<and> prefix t (drop q (lit @ ?rest)))" if "q < length lit" for q
    using first that len unfolding split [symmetric] by (simp add: endraw_here_iff [symmetric])
  from n have ex: "\<exists>t. is_endraw t \<and> prefix t ?rest"
    by (simp add: endraw_here_iff [symmetric])
  then obtain t where t: "is_endraw t" "prefix t ?rest" by blast
  have inv5: "cursor_inv st5" using ReadUntil_inv [OF inv r5] by simp
  have "drop (it st5) (source st5) = ?rest" by (simp add: st5 add.commute)
  with t(2) have "prefix t (drop (it st5) (source st5))" by simp
  from endraw_step [OF inv5 t(1) this]
  have "\<exists>st'' m'' l''. step Lexer0 st5 = Inr (st'', m'', [Token l'' TOKEN_TAG ''endraw''])" .
  with split st5(1) len nomatch ex show ?thesis by blast
qed

lemma prefix_take: "prefix p s \<Longrightarrow> length p \<le> k \<Longrightarrow> prefix p (take k s)"
  by (auto simp: prefix_def)

text \<open>
  C1 (as stated) fails: after the raw body the end-raw tag is still ahead of the cursor and is
  tokenized; the stream for \<^verbatim>\<open>{% raw %}{{ not a statement }}{% endraw %}\<close> has a tag
  token \<^verbatim>\<open>endraw\<close> before the end of input.
\<close>

theorem endraw_swallowed_counterexample:
  "Tokenize Lexer0 ''{% raw %}{{ not a statement }}{% endraw %}''
     \<noteq> Some (Inr [Token 1 TOKEN_TAG ''raw'', Token 1 TOKEN_LITERAL ''{{ not a statement }}'',
                   Token 1 TOKEN_EOF []])
   \<and> (\<exists>toks. Tokenize Lexer0 ''{% raw %}{{ not a statement }}{% endraw %}'' = Some (Inr toks)
         \<and> Token 1 TOKEN_TAG ''endraw'' \<in> set toks)"
proof -
  have "Tokenize Lexer0 ''{% raw %}{{ not a statement }}{% endraw %}''
      = Some (Inr [Token 1 TOKEN_TAG ''raw'', Token 1 TOKEN_LITERAL ''{{ not a statement }}'',
                   Token 1 TOKEN_TAG ''endraw'', Token 1 TOKEN_EOF []])"
    by code_simp
  then show ?thesis by simp
qed

subsection \<open>When the run returns a token stream\<close>

lemma literal_end_match_nonempty:
  assumes "regex_search (re_literal_end Lexer0) s = Matched p e"
  shows "e \<noteq> []"
proof -
  from regex_search_Matched [OF assms] obtain n where
    n: "match_here (re_literal_end Lexer0) (drop p s) = Some n" and e: "e = take n (drop p s)"
    by blast
  from n obtain x xs k where "drop p s = x # xs" "n = Suc k"
    by (auto simp: Lexer0_def match_once split: option.splits)
  with e show ?thesis by simp
qed

lemma literal_branch_defined_iff:
  "(\<exists>r. literal_branch Lexer0 st = Inr r)
   \<longleftrightarrow> regex_search (re_literal_end Lexer0) (drop (it st) (source st)) \<noteq> Unmatched"
proof (cases "regex_search (re_literal_end Lexer0) (drop (it st) (source st))")
  case Unmatched
  then show ?thesis by (simp add: literal_branch_unmatched)
next
  case (Matched p e)
  then have "e \<noteq> []" by (rule literal_end_match_nonempty)
  from literal_branch_matched [OF Matched this] Matched show ?thesis by auto
qed

lemma no_brace_unmatched:
  "CHR ''{'' \<notin> set s \<Longrightarrow> regex_search (re_literal_end Lexer0) s = Unmatched"
  by (induction s) (auto simp: Lexer0_def)

text \<open>A source that is not empty and contains no \<^verbatim>\<open>{\<close> never gives a token stream.\<close>

lemma Tokenize_without_brace:
  assumes "CHR ''{'' \<notin> set src" and "src \<noteq> []"
  shows "Tokenize Lexer0 src = Some (Inl BackOfEmptyString)"
proof -
  let ?st = "State_init src"
  from assms(2) have e: "\<not> End ?st" by (simp add: End_def State_init_def)
  from assms obtain x xs where src: "src = x # xs" "x \<noteq> CHR ''{''" by (cases src) auto
  have inv: "it ?st \<le> length (source ?st)" by (simp add: State_init_def)
  have d: "drop (it ?st) (source ?st) = x # xs" by (simp add: State_init_def src)
  from src(2) have "\<not> fst (At ''{{'' ?st)" "\<not> fst (At ''{%'' ?st)"
    unfolding At_prefix [OF inv] d by simp_all
  moreover from assms(1) have "literal_branch Lexer0 ?st = Inl BackOfEmptyString"
    by (intro literal_branch_unmatched) (simp add: State_init_def no_brace_unmatched)
  ultimately have "step Lexer0 ?st = Inl BackOfEmptyString"
    by (simp add: step_branches Lexer0_def)
  with e show ?thesis unfolding Tokenize_def by (subst Tokenize_loop.simps) simp
qed

lemma step_no_eof:
  assumes "step lx st = Inr (st', m, toks)"
  shows "\<forall>t \<in> set toks. tok_type t \<noteq> TOKEN_EOF"
proof -
  consider (s) "statement_branch lx st = (st', m, toks)" | (t) "tag_branch lx st = (st', m, toks)"
    | (l) "literal_branch lx st = Inr (st', m, toks)"
    using assms by (auto simp: step_branches split: if_splits)
  then show ?thesis
  proof cases
    case s
    then have "\<exists>ln v. toks = [Token ln TOKEN_STATEMENT v]"
      by (auto simp: statement_branch_def Let_def split: prod.splits)
    then show ?thesis by (auto simp: TOKEN_STATEMENT_def TOKEN_EOF_def)
  next
    case t
    obtain s m1 st1 where r1: "Read (re_tag_start lx) st = (s, m1, st1)"
      by (metis prod_cases3)
    obtain name m2 st2 where r2: "ReadUntil (re_name_end lx) st1 = (name, m2, st2)"
      by (metis prod_cases3)
    obtain v m3 st3 where r3: "ReadUntil (re_tag_end lx) st2 = (v, m3, st3)"
      by (metis prod_cases3)
    obtain m4 st4 where r4: "EatEnd (re_tag_end lx) (strip_tags lx) st3 = (m4, st4)"
      by (metis prod.exhaust)
    obtain lit m5 st5 where r5: "ReadUntil re_endraw st4 = (lit, m5, st5)"
      by (metis prod_cases3)
    from tag_branch_tokens [OF r1 r2 r3 r4 r5] t
    have "toks = [Token (linenum st1) TOKEN_TAG name]
      @ (if strip v \<noteq> [] then [Token (linenum st2) TOKEN_EXPRESSION (strip v)] else [])
      @ (if name = ''raw'' then [Token (linenum st4) TOKEN_LITERAL lit] else [])"
      by simp
    then show ?thesis
      by (auto simp: TOKEN_TAG_def TOKEN_EXPRESSION_def TOKEN_LITERAL_def TOKEN_EOF_def
          split: if_splits)
  next
    case l
    then have "\<exists>ln v. toks = [Token ln TOKEN_LITERAL v]"
      by (auto simp: literal_branch_def Let_def split: prod.splits sum.splits)
    then show ?thesis by (auto simp: TOKEN_LITERAL_def TOKEN_EOF_def)
  qed
qed

text \<open>A token stream that the loop returns is the tokens pushed so far, then tokens that are not
  end-of-input tokens, then one end-of-input token with empty text.\<close>

lemma Tokenize_loop_ends_with_eof:
  assumes "Tokenize_loop lx st tokens = Some (Inr out)"
  shows "\<exists>ts l. out = tokens @ ts @ [Token l TOKEN_EOF []]
           \<and> (\<forall>t \<in> set ts. tok_type t \<noteq> TOKEN_EOF)"
proof -
  have "\<forall>out. r = Inr out \<longrightarrow> (\<exists>ts l. out = tokens @ ts @ [Token l TOKEN_EOF []]
           \<and> (\<forall>t \<in> set ts. tok_type t \<noteq> TOKEN_EOF))"
    if "Tokenize_loop lx st tokens = Some r" for r
    using that
  proof (rule Tokenize_loop.raw_induct
      [where P = "\<lambda>lx st tokens r. \<forall>out. r = Inr out \<longrightarrow>
          (\<exists>ts l. out = tokens @ ts @ [Token l TOKEN_EOF []]
             \<and> (\<forall>t \<in> set ts. tok_type t \<noteq> TOKEN_EOF))", rotated])
    fix loop :: "Lexer \<Rightarrow> State \<Rightarrow> Token list \<Rightarrow> (error + Token list) option"
    fix lx' st' toks' r'
    assume IH: "\<And>a b c y. loop a b c = Some y \<Longrightarrow> \<forall>out. y = Inr out \<longrightarrow>
          (\<exists>ts l. out = c @ ts @ [Token l TOKEN_EOF []]
             \<and> (\<forall>t \<in> set ts. tok_type t \<noteq> TOKEN_EOF))"
      and body: "(if End st' then Some (Inr (toks' @ [Token (linenum st') TOKEN_EOF []]))
          else case step lx' st' of Inl e \<Rightarrow> Some (Inl e)
               | Inr (st'', m, toks) \<Rightarrow> loop lx' st'' (toks' @ toks)) = Some r'"
    show "\<forall>out. r' = Inr out \<longrightarrow> (\<exists>ts l. out = toks' @ ts @ [Token l TOKEN_EOF []]
             \<and> (\<forall>t \<in> set ts. tok_type t \<noteq> TOKEN_EOF))"
    proof (intro allI impI)
      fix out assume r': "r' = Inr out"
      show "\<exists>ts l. out = toks' @ ts @ [Token l TOKEN_EOF []]
             \<and> (\<forall>t \<in> set ts. tok_type t \<noteq> TOKEN_EOF)"
      proof (cases "End st'")
        case True
        with body r' have "out = toks' @ [] @ [Token (linenum st') TOKEN_EOF []]" by simp
        then show ?thesis by (metis empty_iff empty_set)
      next
        case False
        show ?thesis
        proof (cases "step lx' st'")
          case (Inl e)
          with False body r' show ?thesis by simp
        next
          case (Inr x)
          obtain st'' m ts1 where x: "x = (st'', m, ts1)" by (metis prod_cases3)
          with False Inr body have "loop lx' st'' (toks' @ ts1) = Some r'" by simp
          from IH [OF this] r' obtain ts l where
            o: "out = (toks' @ ts1) @ ts @ [Token l TOKEN_EOF []]"
            and n: "\<forall>t \<in> set ts. tok_type t \<noteq> TOKEN_EOF" by blast
          from step_no_eof [OF Inr [unfolded x]] n
          have "\<forall>t \<in> set (ts1 @ ts). tok_type t \<noteq> TOKEN_EOF" by auto
          moreover from o have "out = toks' @ (ts1 @ ts) @ [Token l TOKEN_EOF []]" by simp
          ultimately show ?thesis by blast
        qed
      qed
    qed
  qed
  with assms show ?thesis by blast
qed

lemma Tokenize_ends_with_eof:
  assumes "Tokenize lx src = Some (Inr out)"
  shows "\<exists>ts l. out = ts @ [Token l TOKEN_EOF []] \<and> (\<forall>t \<in> set ts. tok_type t \<noteq> TOKEN_EOF)"
  using Tokenize_loop_ends_with_eof [OF assms [unfolded Tokenize_def]] by simp

subsection \<open>The patterns of the default lexer, in words\<close>

lemma regex_search_text_before:
  "(case regex_search r s of Matched p e \<Rightarrow> take p s | Unmatched \<Rightarrow> s)
   = text_before (\<lambda>t. match_here r t \<noteq> None) s"
proof (induction s)
  case Nil
  show ?case by (simp split: option.splits)
next
  case (Cons x xs)
  show ?case
  proof (cases "match_here r (x # xs)")
    case None
    with Cons show ?thesis by (cases "regex_search r xs") simp_all
  next
    case (Some n)
    then show ?thesis by simp
  qed
qed

lemma text_before_cong:
  "(\<And>t. P t = Q t) \<Longrightarrow> text_before P s = text_before Q s"
  by (induction s) auto

lemma text_before_prefix: "\<exists>rest. s = text_before P s @ rest"
  by (induction s) auto

lemma ReadUntil_text_before:
  assumes "cursor_inv st" and "ReadUntil r st = (v, m, st')"
  shows "v = text_before (\<lambda>t. match_here r t \<noteq> None) (drop (it st) (source st))"
    and "drop (it st') (source st') = drop (length v) (drop (it st) (source st))"
proof -
  let ?rest = "drop (it st) (source st)"
  have "v = (case regex_search r ?rest of Matched p e \<Rightarrow> take p ?rest | Unmatched \<Rightarrow> ?rest)
      \<and> drop (it st') (source st') = drop (length v) ?rest"
  proof (cases "regex_search r ?rest")
    case Unmatched
    with assms(2) have "v = ?rest" "it st' = length (source st)" "source st' = source st"
      by (auto simp: ReadUntil_Unmatched)
    with Unmatched show ?thesis by simp
  next
    case (Matched p e)
    from regex_search_Matched [OF Matched] have p: "p \<le> length ?rest" by blast
    from assms(2) have "v = take p ?rest" "it st' = it st + p" "source st' = source st"
      by (auto simp: ReadUntil_Matched [OF Matched])
    with Matched p show ?thesis by (simp add: add.commute min_absorb2)
  qed
  then show "v = text_before (\<lambda>t. match_here r t \<noteq> None) ?rest"
    and "drop (it st') (source st') = drop (length v) ?rest"
    by (simp_all add: regex_search_text_before)
qed

lemma Read_not_here:
  assumes "match_here r (drop (it st) (source st)) = None"
  shows "Read r st = ([], regex_search r (drop (it st) (source st)), st)"
proof (cases "regex_search r (drop (it st) (source st))")
  case Unmatched
  then show ?thesis by (simp add: Read_def Let_def)
next
  case (Matched p e)
  with assms have "0 < p" by (auto dest: regex_search_not_here)
  with Matched show ?thesis by (simp add: Read_def Let_def)
qed

lemma linenum_line_of:
  assumes "cursor_inv st"
  shows "linenum st = line_of (source st) (drop (it st) (source st))"
  using assms by (simp add: cursor_inv_def line_of_def)

text \<open>Deterministic steps of the matcher.\<close>

lemma det_optional:
  assumes "\<And>xs. match_terms ts (c # xs) = None"
  shows "match_terms ((Chr c, Optional) # ts) s
         = (if prefix [c] s then map_option Suc (match_terms ts (tl s)) else match_terms ts s)"
proof (cases s)
  case Nil
  then show ?thesis by simp
next
  case (Cons x xs)
  with assms show ?thesis by (cases "match_terms ts xs") auto
qed

lemma det_many:
  assumes "\<And>x xs. isspace x \<Longrightarrow> match_terms ts (x # xs) = None"
  shows "match_terms ((Space, Many) # ts) s
         = map_option ((+) (length (takeWhile isspace s))) (match_terms ts (dropWhile isspace s))"
proof (induction s)
  case Nil
  show ?case by (cases "match_terms ts []") simp_all
next
  case (Cons x xs)
  show ?case
  proof (cases "isspace x")
    case True
    with Cons assms [OF True, of xs] show ?thesis
      by (cases "match_terms ts (dropWhile isspace xs)") simp_all
  next
    case False
    then show ?thesis by (cases "match_terms ts (x # xs)") simp_all
  qed
qed

lemma open_match:
  "match_terms [(Chr CHR ''-'', Optional), (Space, Many)] r = Some (length r - length (after_open r))
   \<and> drop (length r - length (after_open r)) r = after_open r"
proof (cases "prefix ''-'' r")
  case True
  then obtain xs where r: "r = CHR ''-'' # xs" by (auto simp: prefix_def)
  have l: "length xs = length (takeWhile isspace xs) + length (dropWhile isspace xs)"
    by (metis length_append takeWhile_dropWhile_id)
  then have "Suc (length xs) - length (dropWhile isspace xs) = Suc (length (takeWhile isspace xs))"
    by simp
  then show ?thesis
    by (simp add: r after_open_def after_dash_def match_many_space dropWhile_eq_drop)
next
  case False
  have l: "length r = length (takeWhile isspace r) + length (dropWhile isspace r)"
    by (metis length_append takeWhile_dropWhile_id)
  then have d: "length r - length (dropWhile isspace r) = length (takeWhile isspace r)" by simp
  from False have "match_terms [(Chr CHR ''-'', Optional), (Space, Many)] r
      = match_terms [(Space, Many)] r"
    by (cases r) auto
  with False d show ?thesis
    by (simp add: after_open_def after_dash_def match_many_space dropWhile_eq_drop)
qed

lemma two_chars_match:
  "match_terms [(Chr c1, Once), (Chr c2, Once)] t = (if prefix [c1, c2] t then Some 2 else None)"
proof (cases t)
  case Nil
  then show ?thesis by simp
next
  case (Cons x xs)
  then show ?thesis by (cases xs) auto
qed

lemma one_char_match:
  "match_terms [(Chr c, Once)] t = (if prefix [c] t then Some 1 else None)"
  by (cases t) auto

lemma after_dash_prefix_iff:
  assumes "c1 \<noteq> CHR ''-''"
  shows "prefix [c1, c2] (after_dash s) \<longleftrightarrow> prefix (''-'' @ [c1, c2]) s \<or> prefix [c1, c2] s"
proof (cases s)
  case Nil
  then show ?thesis by (simp add: after_dash_def)
next
  case (Cons x xs)
  with assms show ?thesis by (auto simp: after_dash_def)
qed

lemma dash_two_chars_match:
  assumes "c1 \<noteq> CHR ''-''"
  shows "match_terms [(Chr CHR ''-'', Optional), (Chr c1, Once), (Chr c2, Once)] s
         = (if prefix (''-'' @ [c1, c2]) s then Some 3
            else if prefix [c1, c2] s then Some 2 else None)"
proof -
  have "match_terms [(Chr c1, Once), (Chr c2, Once)] (CHR ''-'' # xs) = None" for xs
    using assms by simp
  from det_optional [of "[(Chr c1, Once), (Chr c2, Once)]" "CHR ''-''", OF this]
  have "match_terms [(Chr CHR ''-'', Optional), (Chr c1, Once), (Chr c2, Once)] s
      = (if prefix ''-'' s then map_option Suc (match_terms [(Chr c1, Once), (Chr c2, Once)] (tl s))
         else match_terms [(Chr c1, Once), (Chr c2, Once)] s)" .
  also have "\<dots> = (if prefix (''-'' @ [c1, c2]) s then Some 3
            else if prefix [c1, c2] s then Some 2 else None)"
  proof (cases s)
    case Nil
    then show ?thesis by simp
  next
    case (Cons x xs)
    with assms show ?thesis by (auto simp: two_chars_match one_char_match)
  qed
  finally show ?thesis .
qed

lemma close_match:
  assumes "\<not> isspace c1" and "c1 \<noteq> CHR ''-''"
  shows "match_terms [(Space, Many), (Chr CHR ''-'', Optional), (Chr c1, Once), (Chr c2, Once)] s
         = (if prefix (''-'' @ [c1, c2]) (dropWhile isspace s)
            then Some (length (takeWhile isspace s) + 3)
            else if prefix [c1, c2] (dropWhile isspace s)
            then Some (length (takeWhile isspace s) + 2) else None)"
proof -
  have "match_terms [(Chr CHR ''-'', Optional), (Chr c1, Once), (Chr c2, Once)] (x # xs) = None"
    if "isspace x" for x xs
    using that assms by (auto simp: dash_two_chars_match dest: space_not_special)
  from det_many [of "[(Chr CHR ''-'', Optional), (Chr c1, Once), (Chr c2, Once)]", OF this]
  show ?thesis by (simp add: dash_two_chars_match [OF assms(2)])
qed

lemma closes_with_iff:
  assumes "c1 \<noteq> CHR ''-''"
  shows "closes_with [c1, c2] s
         \<longleftrightarrow> prefix (''-'' @ [c1, c2]) (dropWhile isspace s) \<or> prefix [c1, c2] (dropWhile isspace s)"
  unfolding closes_with_def by (rule after_dash_prefix_iff [OF assms])

lemma close_match_iff:
  assumes "\<not> isspace c1" and "c1 \<noteq> CHR ''-''"
  shows "match_here [[(Space, Many), (Chr CHR ''-'', Optional), (Chr c1, Once), (Chr c2, Once)]] s
           \<noteq> None \<longleftrightarrow> closes_with [c1, c2] s"
  by (simp add: close_match [OF assms] closes_with_iff [OF assms(2)])

lemma statement_end_iff:
  "match_here (re_statement_end Lexer0) s \<noteq> None \<longleftrightarrow> closes_with ''}}'' s"
  using close_match_iff [of "CHR ''}''" "CHR ''}''" s] by (simp add: Lexer0_def isspace_def)

lemma tag_end_iff:
  "match_here (re_tag_end Lexer0) s \<noteq> None \<longleftrightarrow> closes_with ''%}'' s"
  using close_match_iff [of "CHR ''%''" "CHR ''}''" s] by (simp add: Lexer0_def isspace_def)

lemma name_end_iff:
  "match_here (re_name_end Lexer0) s \<noteq> None \<longleftrightarrow> name_ends s"
proof -
  have 1: "match_terms [(Space, Once)] s \<noteq> None \<longleftrightarrow> s \<noteq> [] \<and> isspace (hd s)"
    by (cases s) auto
  have 2: "match_terms [(Chr CHR ''-'', Optional), (Chr CHR ''%'', Once), (Chr CHR ''}'', Once)] s
        \<noteq> None \<longleftrightarrow> prefix ''%}'' (after_dash s)"
    by (simp add: dash_two_chars_match after_dash_prefix_iff)
  have "match_here (re_name_end Lexer0) s \<noteq> None
      \<longleftrightarrow> match_terms [(Space, Once)] s \<noteq> None
        \<or> match_terms [(Chr CHR ''-'', Optional), (Chr CHR ''%'', Once), (Chr CHR ''}'', Once)] s
            \<noteq> None"
    by (auto simp: Lexer0_def split: option.splits)
  with 1 2 show ?thesis by (simp only: name_ends_def)
qed

lemma endraw_iff: "match_here re_endraw s \<noteq> None \<longleftrightarrow> endraw_here s"
proof -
  let ?t5 = "[(Space, Many), (Chr CHR ''-'', Optional), (Chr CHR ''%'', Once), (Chr CHR ''}'', Once)]"
  let ?t4 = "[(Chr CHR ''e'', Once), (Chr CHR ''n'', Once), (Chr CHR ''d'', Once),
      (Chr CHR ''r'', Once), (Chr CHR ''a'', Once), (Chr CHR ''w'', Once)] @ ?t5"
  let ?t3 = "(Space, Many) # ?t4"
  let ?t2 = "(Chr CHR ''-'', Optional) # ?t3"
  have t5: "match_terms ?t5 u \<noteq> None \<longleftrightarrow> closes_with ''%}'' u" for u
    by (simp add: close_match closes_with_iff isspace_def)
  have t4: "match_terms ?t4 u \<noteq> None \<longleftrightarrow> prefix ''endraw'' u \<and> closes_with ''%}'' (drop 6 u)" for u
  proof
    assume "match_terms ?t4 u \<noteq> None"
    then obtain n where "match_terms ?t4 u = Some n" by auto
    then obtain u' k where "u = ''endraw'' @ u'" "match_terms ?t5 u' = Some k"
      by (auto simp: match_once)
    with t5 [of u'] show "prefix ''endraw'' u \<and> closes_with ''%}'' (drop 6 u)" by simp
  next
    assume a: "prefix ''endraw'' u \<and> closes_with ''%}'' (drop 6 u)"
    then obtain u' where u: "u = ''endraw'' @ u'" by (auto simp: prefix_def)
    with a t5 [of u'] obtain k where "match_terms ?t5 u' = Some k" by auto
    with u show "match_terms ?t4 u \<noteq> None" by simp
  qed
  have "match_terms ?t4 (x # xs) = None" if "isspace x" for x xs
    using that by (auto dest: space_not_special)
  from det_many [of ?t4, OF this]
  have t3: "match_terms ?t3 u \<noteq> None \<longleftrightarrow> match_terms ?t4 (dropWhile isspace u) \<noteq> None" for u
    by simp
  have "match_terms ?t3 (CHR ''-'' # xs) = None" for xs
    by (simp add: isspace_def)
  from det_optional [of ?t3 "CHR ''-''", OF this]
  have t2: "match_terms ?t2 u \<noteq> None \<longleftrightarrow> match_terms ?t3 (after_dash u) \<noteq> None" for u
    by (simp add: after_dash_def)
  have "match_here re_endraw s \<noteq> None
      \<longleftrightarrow> prefix ''{%'' s \<and> match_terms ?t2 (drop 2 s) \<noteq> None"
  proof (cases "prefix ''{%'' s")
    case True
    then obtain r where "s = CHR ''{'' # CHR ''%'' # r" by (auto simp: prefix_def)
    then show ?thesis by (cases "match_terms ?t2 r") (simp_all add: re_endraw_def)
  next
    case False
    then have "match_terms ((Chr CHR ''{'', Once) # (Chr CHR ''%'', Once) # ?t2) s = None"
      by (cases s; cases "tl s") auto
    with False show ?thesis by (simp add: re_endraw_def)
  qed
  also have "\<dots> \<longleftrightarrow> endraw_here s"
    unfolding t2 t3 t4 by (simp add: endraw_here_def after_open_def)
  finally show ?thesis .
qed

text \<open>\<^verbatim>\<open>EatEnd\<close> on a closing pattern, without the global trim.\<close>

lemma EatEnd_after_close:
  assumes inv: "cursor_inv st" and c: "\<not> isspace c1" "c1 \<noteq> CHR ''-''" "c2 \<noteq> CHR ''-''"
      and e: "EatEnd [[(Space, Many), (Chr CHR ''-'', Optional), (Chr c1, Once), (Chr c2, Once)]]
                False st = (m, st')"
  shows "drop (it st') (source st') = after_close [c1, c2] (drop (it st) (source st))"
proof -
  let ?r = "[[(Space, Many), (Chr CHR ''-'', Optional), (Chr c1, Once), (Chr c2, Once)]]"
  let ?rest = "drop (it st) (source st)"
  let ?s1 = "dropWhile isspace ?rest"
  let ?k = "length (takeWhile isspace ?rest)"
  have nd: "CHR ''-'' \<notin> set (takeWhile isspace ?rest)"
    by (auto dest: set_takeWhileD simp: isspace_def)
  have mh: "match_here ?r ?rest
      = (if prefix (''-'' @ [c1, c2]) ?s1 then Some (?k + 3)
         else if prefix [c1, c2] ?s1 then Some (?k + 2) else None)"
    by (simp add: close_match [OF c(1,2)])
  have dk: "drop ?k ?rest = ?s1" by (simp add: dropWhile_eq_drop)
  consider (dash) "prefix (''-'' @ [c1, c2]) ?s1"
    | (plain) "\<not> prefix (''-'' @ [c1, c2]) ?s1" "prefix [c1, c2] ?s1"
    | (none) "\<not> prefix (''-'' @ [c1, c2]) ?s1" "\<not> prefix [c1, c2] ?s1" by blast
  then show ?thesis
  proof cases
    case dash
    with mh have h: "match_here ?r ?rest = Some (?k + 3)" by simp
    let ?st1 = "st\<lparr>it := it st + (?k + 3),
        linenum := linenum st + count_newlines (take (?k + 3) ?rest)\<rparr>"
    have r1: "Read ?r st = (take (?k + 3) ?rest, Matched 0 (take (?k + 3) ?rest), ?st1)"
      using Read_here [OF h] .
    from dash obtain t where s1: "?s1 = ''-'' @ [c1, c2] @ t" by (auto simp: prefix_def)
    have "take (?k + 3) ?rest = takeWhile isspace ?rest @ take 3 ?s1"
      by (metis dk take_add takeWhile_eq_take)
    with s1 have "CHR ''-'' \<in> set (take (?k + 3) ?rest)" by simp
    moreover have "drop (it ?st1) (source ?st1) = drop 3 ?s1"
      by (metis (no_types, lifting) State.select_convs(1,2) State.surjective State.update_convs(2,3)
          add.commute dk drop_drop)
    moreover obtain w m2 st2 where r2: "Read re_whitespace ?st1 = (w, m2, st2)"
      by (metis prod_cases3)
    ultimately have st': "st' = st2" using e r1 by (simp add: EatEnd_def)
    have "match_here re_whitespace (drop (it ?st1) (source ?st1))
        = Some (length (takeWhile isspace (drop (it ?st1) (source ?st1))))"
      by (simp add: re_whitespace_def match_many_space)
    from Read_here [OF this] r2
    have "it st2 = it ?st1 + length (takeWhile isspace (drop (it ?st1) (source ?st1)))"
      "source st2 = source ?st1" by auto
    then have "drop (it st2) (source st2)
        = dropWhile isspace (drop (it ?st1) (source ?st1))"
      by (simp add: dropWhile_eq_drop add.commute)
    also have "drop (it ?st1) (source ?st1) = drop 3 ?s1"
      by (metis (no_types, lifting) State.select_convs(1,2) State.surjective State.update_convs(2,3)
          add.commute dk drop_drop)
    finally show ?thesis using dash by (simp add: st' after_close_def eval_nat_numeral)
  next
    case plain
    with mh have h: "match_here ?r ?rest = Some (?k + 2)" by simp
    let ?st1 = "st\<lparr>it := it st + (?k + 2),
        linenum := linenum st + count_newlines (take (?k + 2) ?rest)\<rparr>"
    have r1: "Read ?r st = (take (?k + 2) ?rest, Matched 0 (take (?k + 2) ?rest), ?st1)"
      using Read_here [OF h] .
    from plain obtain t where s1: "?s1 = [c1, c2] @ t" by (auto simp: prefix_def)
    have "take (?k + 2) ?rest = takeWhile isspace ?rest @ take 2 ?s1"
      by (metis dk take_add takeWhile_eq_take)
    with s1 nd c have "CHR ''-'' \<notin> set (take (?k + 2) ?rest)" by simp
    with e r1 have st': "st' = ?st1" by (simp add: EatEnd_def)
    have "drop (it ?st1) (source ?st1) = drop 2 ?s1"
      by (metis (no_types, lifting) State.select_convs(1,2) State.surjective State.update_convs(2,3)
          add.commute dk drop_drop)
    with plain show ?thesis by (simp add: st' after_close_def eval_nat_numeral)
  next
    case none
    with mh have "match_here ?r ?rest = None" by simp
    from Read_not_here [OF this] e have "st' = st" by (simp add: EatEnd_def)
    with none show ?thesis by (simp add: after_close_def)
  qed
qed

subsection \<open>The statement and tag branches, in words\<close>

lemma text_before_patterns:
  "text_before (\<lambda>t. match_here (re_statement_end Lexer0) t \<noteq> None) s
     = text_before (closes_with ''}}'') s"
  "text_before (\<lambda>t. match_here (re_tag_end Lexer0) t \<noteq> None) s
     = text_before (closes_with ''%}'') s"
  "text_before (\<lambda>t. match_here (re_name_end Lexer0) t \<noteq> None) s = text_before name_ends s"
  "text_before (\<lambda>t. match_here re_endraw t \<noteq> None) s = text_before endraw_here s"
  by (rule text_before_cong, rule statement_end_iff tag_end_iff name_end_iff endraw_iff)+

lemma Read_open:
  assumes inv: "cursor_inv st"
      and rest: "drop (it st) (source st) = c1 # c2 # r"
      and pat: "pattern = [[(Chr c1, Once), (Chr c2, Once), (Chr CHR ''-'', Optional), (Space, Many)]]"
      and rd: "Read pattern st = (s, m, st1)"
  shows "cursor_inv st1 \<and> source st1 = source st
         \<and> drop (it st1) (source st1) = after_open r"
proof -
  let ?n = "length r - length (after_open r)"
  from open_match [of r] have
    om: "match_terms [(Chr CHR ''-'', Optional), (Space, Many)] r = Some ?n"
    and dr: "drop ?n r = after_open r" by simp_all
  from om have "match_here pattern (drop (it st) (source st)) = Some (Suc (Suc ?n))"
    by (simp add: rest pat)
  from Read_here [OF this] rd have "it st1 = it st + Suc (Suc ?n)" "source st1 = source st"
    by auto
  then have "drop (it st1) (source st1) = drop (Suc (Suc ?n)) (drop (it st) (source st))"
    by (simp add: add.commute)
  also have "\<dots> = after_open r" using dr by (simp add: rest)
  finally show ?thesis using Read_inv [OF inv rd] by simp
qed


lemma tag_step:
  assumes inv: "cursor_inv st" and at: "fst (At (tag_start Lexer0) st)"
      and r1: "r1 = after_open (drop (it st + 2) (source st))"
      and name: "name = text_before name_ends r1"
      and r2: "r2 = drop (length name) r1"
      and v: "v = text_before (closes_with ''%}'') r2"
      and r4: "r4 = after_close ''%}'' (drop (length v) r2)"
      and lit: "lit = text_before endraw_here r4"
  shows "\<exists>st' m. step Lexer0 st
             = Inr (st', m,
                 [Token (line_of (source st) r1) TOKEN_TAG name]
                 @ (if strip v \<noteq> [] then [Token (line_of (source st) r2) TOKEN_EXPRESSION (strip v)]
                    else [])
                 @ (if name = ''raw'' then [Token (line_of (source st) r4) TOKEN_LITERAL lit]
                    else []))
           \<and> cursor_inv st' \<and> source st' = source st
           \<and> drop (it st') (source st') = (if name = ''raw'' then drop (length lit) r4 else r4)"
proof -
  let ?rest0 = "drop (it st) (source st)"
  from inv at have p0: "prefix ''{%'' ?rest0" by (simp add: At_prefix cursor_inv_def Lexer0_def)
  then obtain r where rest0: "?rest0 = CHR ''{'' # CHR ''%'' # r" by (auto simp: prefix_def)
  then have "\<not> prefix ''{{'' ?rest0" by simp
  with inv have nat: "\<not> fst (At (statement_start Lexer0) st)"
    by (simp add: At_prefix cursor_inv_def Lexer0_def)
  have "drop (it st + 2) (source st) = drop 2 ?rest0" by (simp add: add.commute)
  with rest0 have r: "drop (it st + 2) (source st) = r" by simp
  obtain s m1 st1 where rd1: "Read (re_tag_start Lexer0) st = (s, m1, st1)"
    by (metis prod_cases3)
  have "re_tag_start Lexer0
      = [[(Chr CHR ''{'', Once), (Chr CHR ''%'', Once), (Chr CHR ''-'', Optional), (Space, Many)]]"
    by (simp add: Lexer0_def)
  from Read_open [OF inv rest0 this rd1] r r1
  have 1: "cursor_inv st1" "source st1 = source st" "drop (it st1) (source st1) = r1"
    by auto
  obtain name' m2 st2 where rd2: "ReadUntil (re_name_end Lexer0) st1 = (name', m2, st2)"
    by (metis prod_cases3)
  from ReadUntil_text_before [OF 1(1) rd2] 1(3)
  have "name' = text_before (\<lambda>t. match_here (re_name_end Lexer0) t \<noteq> None) r1"
    and "drop (it st2) (source st2) = drop (length name') r1" by simp_all
  then have name': "name' = name" and d2: "drop (it st2) (source st2) = r2"
    unfolding name r2 text_before_patterns by (simp_all only:)
  from ReadUntil_inv [OF 1(1) rd2] have 2: "cursor_inv st2" "source st2 = source st1" by simp_all
  obtain v' m3 st3 where rd3: "ReadUntil (re_tag_end Lexer0) st2 = (v', m3, st3)"
    by (metis prod_cases3)
  from ReadUntil_text_before [OF 2(1) rd3] d2
  have "v' = text_before (\<lambda>t. match_here (re_tag_end Lexer0) t \<noteq> None) r2"
    and "drop (it st3) (source st3) = drop (length v') r2" by simp_all
  then have v': "v' = v" and d3: "drop (it st3) (source st3) = drop (length v) r2"
    unfolding v text_before_patterns by (simp_all only:)
  from ReadUntil_inv [OF 2(1) rd3] have 3: "cursor_inv st3" "source st3 = source st2" by simp_all
  obtain m4 st4 where rd4: "EatEnd (re_tag_end Lexer0) (strip_tags Lexer0) st3 = (m4, st4)"
    by (metis prod.exhaust)
  then have "EatEnd [[(Space, Many), (Chr CHR ''-'', Optional), (Chr CHR ''%'', Once),
      (Chr CHR ''}'', Once)]] False st3 = (m4, st4)" by (simp add: Lexer0_def)
  from EatEnd_after_close [OF 3(1) _ _ _ this] d3 r4
  have d4: "drop (it st4) (source st4) = r4" by (simp add: isspace_def)
  from EatEnd_inv [OF 3(1) rd4] have 4: "cursor_inv st4" "source st4 = source st3" by simp_all
  obtain lit' m5 st5 where rd5: "ReadUntil re_endraw st4 = (lit', m5, st5)"
    by (metis prod_cases3)
  from ReadUntil_text_before [OF 4(1) rd5] d4
  have "lit' = text_before (\<lambda>t. match_here re_endraw t \<noteq> None) r4"
    and "drop (it st5) (source st5) = drop (length lit') r4" by simp_all
  then have lit': "lit' = lit" and d5: "drop (it st5) (source st5) = drop (length lit) r4"
    unfolding lit text_before_patterns by (simp_all only:)
  from ReadUntil_inv [OF 4(1) rd5] have 5: "cursor_inv st5" "source st5 = source st4" by simp_all
  have l1: "linenum st1 = line_of (source st) r1" using linenum_line_of [OF 1(1)] 1(2,3) by simp
  have l2: "linenum st2 = line_of (source st) r2"
    using linenum_line_of [OF 2(1)] 1(2) 2(2) d2 by simp
  have l4: "linenum st4 = line_of (source st) r4"
    using linenum_line_of [OF 4(1)] 1(2) 2(2) 3(2) 4(2) d4 by simp
  from nat at have "step Lexer0 st = Inr (tag_branch Lexer0 st)" by (simp add: step_branches)
  also note tag_branch_tokens [OF rd1 rd2 rd3 rd4 rd5]
  finally have "step Lexer0 st =
     Inr (if name = ''raw'' then st5 else st4, if name = ''raw'' then m5 else m4,
      [Token (line_of (source st) r1) TOKEN_TAG name]
      @ (if strip v \<noteq> [] then [Token (line_of (source st) r2) TOKEN_EXPRESSION (strip v)] else [])
      @ (if name = ''raw'' then [Token (line_of (source st) r4) TOKEN_LITERAL lit] else []))"
    unfolding name' v' lit' l1 l2 l4 .
  moreover have "cursor_inv (if name = ''raw'' then st5 else st4)"
    "source (if name = ''raw'' then st5 else st4) = source st"
    "drop (it (if name = ''raw'' then st5 else st4)) (source (if name = ''raw'' then st5 else st4))
      = (if name = ''raw'' then drop (length lit) r4 else r4)"
    using 1(2) 2(2) 3(2) 4 5 d4 d5 by simp_all
  ultimately show ?thesis by blast
qed

lemma text_before_first: "q < length (text_before P s) \<Longrightarrow> \<not> P (drop q s)"
proof (induction s arbitrary: q)
  case Nil
  then show ?case by simp
next
  case (Cons x xs)
  then show ?case by (cases q) (auto split: if_splits)
qed

lemma text_before_stops:
  "drop (length (text_before P s)) s = [] \<or> P (drop (length (text_before P s)) s)"
  by (induction s) auto

lemma text_before_here: "P s \<Longrightarrow> text_before P s = []"
  by (cases s) auto



lemma closes_name_ends:
  assumes "closes_with ''%}'' t"
  shows "name_ends t"
proof (cases "t \<noteq> [] \<and> isspace (hd t)")
  case True
  then show ?thesis by (simp add: name_ends_def)
next
  case False
  then have "dropWhile isspace t = t" by (cases t) auto
  with assms show ?thesis by (simp add: closes_with_def name_ends_def)
qed

lemma endraw_name:
  assumes "prefix ''endraw'' u" and "closes_with ''%}'' (drop 6 u)"
  shows "text_before name_ends u = ''endraw''"
    and "text_before (closes_with ''%}'') (drop (length ''endraw'') u) = []"
proof -
  from assms(1) obtain t where u: "u = ''endraw'' @ t" by (auto simp: prefix_def)
  with assms(2) have c: "closes_with ''%}'' t" by simp
  then have "text_before name_ends t = []" by (intro text_before_here closes_name_ends)
  then show "text_before name_ends u = ''endraw''"
    by (simp add: u name_ends_def after_dash_def isspace_def)
  from c show "text_before (closes_with ''%}'') (drop (length ''endraw'') u) = []"
    by (simp add: u text_before_here)
qed

lemma endraw_here_is_endraw: "endraw_here s \<longleftrightarrow> (\<exists>t. is_endraw t \<and> prefix t s)"
  using endraw_iff [of s] endraw_here_iff [of s] by simp

text \<open>An iteration entered where an end-raw tag begins pushes the tag token \<^verbatim>\<open>endraw\<close>
  and nothing else, and leaves the cursor after the tag.\<close>

lemma endraw_tag_step:
  assumes inv: "cursor_inv st" and e: "endraw_here (drop (it st) (source st))"
  shows "\<exists>st' m. step Lexer0 st
            = Inr (st', m, [Token (line_of (source st) (after_open (drop (it st + 2) (source st))))
                              TOKEN_TAG ''endraw''])
          \<and> cursor_inv st' \<and> source st' = source st
          \<and> drop (it st') (source st')
              = after_close ''%}'' (drop 6 (after_open (drop (it st + 2) (source st))))"
proof -
  let ?rest = "drop (it st) (source st)"
  let ?r1 = "after_open (drop (it st + 2) (source st))"
  have d: "drop (it st + 2) (source st) = drop 2 ?rest" by (simp add: add.commute)
  from e have p: "prefix ''{%'' ?rest" and n: "prefix ''endraw'' ?r1"
    and c: "closes_with ''%}'' (drop 6 ?r1)"
    unfolding d by (simp_all add: endraw_here_def)
  from inv p have at: "fst (At (tag_start Lexer0) st)"
    by (simp add: At_prefix cursor_inv_def Lexer0_def)
  note nm = endraw_name [OF n c]
  have ne: "''endraw'' \<noteq> ''raw''" by simp
  from tag_step [OF inv at refl nm(1) [symmetric] refl nm(2) [symmetric] refl refl]
  show ?thesis by (simp only: ne strip_Nil if_False simp_thms append_Nil2 list.size drop_0)
     (simp add: eval_nat_numeral)
qed

text \<open>
  C1 (amended). With the default lexer, an iteration that finds the tag-start delimiter at the
  cursor and reads the name \<^verbatim>\<open>raw\<close> pushes the tag token, the expression token when the
  stripped expression is not empty, and last one literal token. The literal's text begins after
  the raw tag, that is after the tag's closing \<^verbatim>\<open>%}\<close> and, when that carried a
  \<^verbatim>\<open>-\<close>, the whitespace behind it, and it ends before the first place where an end-raw tag
  begins, or at the end of the source when there is none. The cursor stops at the end of that
  text: an end-raw tag that follows is not consumed, and the next iteration tokenizes it as an
  ordinary tag, pushing the tag token \<^verbatim>\<open>endraw\<close> and nothing else, and leaves the cursor
  after it. The source \<^verbatim>\<open>{% raw %}{{ not a statement }}{% endraw %}\<close> gives the tag
  \<^verbatim>\<open>raw\<close>, the literal \<^verbatim>\<open>{{ not a statement }}\<close>, the tag \<^verbatim>\<open>endraw\<close> and the end
  of input.
\<close>

theorem raw_literal_up_to_endraw:
  assumes "visits Lexer0 src st" and "fst (At (tag_start Lexer0) st)"
      and "r1 = after_open (drop (Position st + 2) src)"
      and "text_before name_ends r1 = ''raw''"
      and "v = text_before (closes_with ''%}'') (drop 3 r1)"
      and "r4 = after_close ''%}'' (drop (length v) (drop 3 r1))"
      and "lit = text_before endraw_here r4"
      and "rest = drop (length lit) r4"
  shows "(\<exists>st' m. step Lexer0 st
              = Inr (st', m,
                  [Token (line_of src r1) TOKEN_TAG ''raw'']
                  @ (if strip v \<noteq> []
                     then [Token (line_of src (drop 3 r1)) TOKEN_EXPRESSION (strip v)] else [])
                  @ [Token (line_of src r4) TOKEN_LITERAL lit])
            \<and> source st' = src \<and> Position st' \<le> length src
            \<and> drop (Position st') src = rest
            \<and> (rest = [] \<or>
                (\<exists>st'' m''. step Lexer0 st'
                      = Inr (st'', m'',
                          [Token (line_of src (after_open (drop 2 rest))) TOKEN_TAG ''endraw''])
                    \<and> drop (Position st'') src
                        = after_close ''%}'' (drop 6 (after_open (drop 2 rest))))))
       \<and> prefix ''{%'' (drop (Position st) src)
       \<and> (\<forall>q < length lit. \<not> endraw_here (drop q r4))
       \<and> (rest = [] \<or> endraw_here rest)
       \<and> Tokenize Lexer0 ''{% raw %}{{ not a statement }}{% endraw %}''
           = Some (Inr [Token 1 TOKEN_TAG ''raw'', Token 1 TOKEN_LITERAL ''{{ not a statement }}'',
                        Token 1 TOKEN_TAG ''endraw'', Token 1 TOKEN_EOF []])"
proof -
  from assms(1) have inv: "cursor_inv st" and src: "source st = src"
    by (auto dest: visits_inv)
  from assms(3) src have r1: "r1 = after_open (drop (it st + 2) (source st))"
    by (simp add: Position_def)
  have r2: "drop 3 r1 = drop (length ''raw'') r1" by (simp add: eval_nat_numeral)
  have raw: "(''raw'' = ''raw'') = True" by simp
  from tag_step [OF inv assms(2) r1 assms(4) [symmetric] r2 assms(5,6,7)]
  obtain st' m where
    s: "step Lexer0 st
        = Inr (st', m,
            [Token (line_of src r1) TOKEN_TAG ''raw'']
            @ (if strip v \<noteq> []
               then [Token (line_of src (drop 3 r1)) TOKEN_EXPRESSION (strip v)] else [])
            @ [Token (line_of src r4) TOKEN_LITERAL lit])"
    and i: "cursor_inv st'" "source st' = src"
    and d: "drop (it st') (source st') = rest"
    unfolding raw if_True src assms(8) [symmetric] by blast
  from i have le: "Position st' \<le> length src" by (simp add: cursor_inv_def Position_def)
  have stop: "rest = [] \<or> endraw_here rest"
    unfolding assms(7,8) by (rule text_before_stops)
  have next_step: "rest = [] \<or>
      (\<exists>st'' m''. step Lexer0 st'
            = Inr (st'', m'',
                [Token (line_of src (after_open (drop 2 rest))) TOKEN_TAG ''endraw''])
          \<and> drop (Position st'') src
              = after_close ''%}'' (drop 6 (after_open (drop 2 rest))))"
  proof (cases "rest = []")
    case True
    then show ?thesis by simp
  next
    case False
    with stop d have "endraw_here (drop (it st') (source st'))" by simp
    from endraw_tag_step [OF i(1) this] obtain st'' m'' where
      "step Lexer0 st' = Inr (st'', m'',
          [Token (line_of (source st') (after_open (drop (it st' + 2) (source st'))))
             TOKEN_TAG ''endraw''])"
      "source st'' = source st'"
      "drop (it st'') (source st'')
         = after_close ''%}'' (drop 6 (after_open (drop (it st' + 2) (source st'))))"
      by blast
    moreover have "drop (it st' + 2) (source st') = drop 2 rest"
      unfolding d [symmetric] by (simp add: add.commute)
    ultimately have "step Lexer0 st'
            = Inr (st'', m'',
                [Token (line_of src (after_open (drop 2 rest))) TOKEN_TAG ''endraw''])
          \<and> drop (Position st'') src
              = after_close ''%}'' (drop 6 (after_open (drop 2 rest)))"
      using i(2) by (simp add: Position_def)
    then show ?thesis by blast
  qed
  from s i(2) le d next_step have 1: "\<exists>st' m. step Lexer0 st
              = Inr (st', m,
                  [Token (line_of src r1) TOKEN_TAG ''raw'']
                  @ (if strip v \<noteq> []
                     then [Token (line_of src (drop 3 r1)) TOKEN_EXPRESSION (strip v)] else [])
                  @ [Token (line_of src r4) TOKEN_LITERAL lit])
            \<and> source st' = src \<and> Position st' \<le> length src
            \<and> drop (Position st') src = rest
            \<and> (rest = [] \<or>
                (\<exists>st'' m''. step Lexer0 st'
                      = Inr (st'', m'',
                          [Token (line_of src (after_open (drop 2 rest))) TOKEN_TAG ''endraw''])
                    \<and> drop (Position st'') src
                        = after_close ''%}'' (drop 6 (after_open (drop 2 rest)))))"
    by (auto simp: Position_def)
  from inv assms(2) src have 2: "prefix ''{%'' (drop (Position st) src)"
    by (simp add: At_prefix cursor_inv_def Lexer0_def Position_def)
  have 3: "\<forall>q < length lit. \<not> endraw_here (drop q r4)"
    unfolding assms(7) by (auto dest: text_before_first)
  have 5: "Tokenize Lexer0 ''{% raw %}{{ not a statement }}{% endraw %}''
           = Some (Inr [Token 1 TOKEN_TAG ''raw'', Token 1 TOKEN_LITERAL ''{{ not a statement }}'',
                        Token 1 TOKEN_TAG ''endraw'', Token 1 TOKEN_EOF []])"
    by code_simp
  from 1 2 3 stop 5 show ?thesis by (intro conjI)
qed

theorem raw_literal_up_to_endraw_witness:
  "visits Lexer0 ''{% raw -%} abc{% endraw %}'' (State_init ''{% raw -%} abc{% endraw %}'')
   \<and> fst (At (tag_start Lexer0) (State_init ''{% raw -%} abc{% endraw %}''))
   \<and> ''raw -%} abc{% endraw %}''
       = after_open (drop (Position (State_init ''{% raw -%} abc{% endraw %}'') + 2)
                          ''{% raw -%} abc{% endraw %}'')
   \<and> text_before name_ends ''raw -%} abc{% endraw %}'' = ''raw''
   \<and> [] = text_before (closes_with ''%}'') (drop 3 ''raw -%} abc{% endraw %}'')
   \<and> ''abc{% endraw %}''
       = after_close ''%}'' (drop (length ([] :: string)) (drop 3 ''raw -%} abc{% endraw %}''))
   \<and> ''abc'' = text_before endraw_here ''abc{% endraw %}''
   \<and> ''{% endraw %}'' = drop (length ''abc'') ''abc{% endraw %}''
   \<and> (\<exists>st' m. step Lexer0 (State_init ''{% raw -%} abc{% endraw %}'')
                  = Inr (st', m, [Token 1 TOKEN_TAG ''raw'', Token 1 TOKEN_LITERAL ''abc''])
         \<and> drop (Position st') ''{% raw -%} abc{% endraw %}'' = ''{% endraw %}''
         \<and> (\<exists>st'' m''. step Lexer0 st' = Inr (st'', m'', [Token 1 TOKEN_TAG ''endraw''])
               \<and> drop (Position st'') ''{% raw -%} abc{% endraw %}'' = []))"
proof -
  let ?src = "''{% raw -%} abc{% endraw %}''"
  let ?r1 = "''raw -%} abc{% endraw %}''"
  let ?r4 = "''abc{% endraw %}''"
  let ?rest = "''{% endraw %}''"
  have v: "visits Lexer0 ?src (State_init ?src)" by (rule visits.start)
  have a: "fst (At (tag_start Lexer0) (State_init ?src))" by code_simp
  have h1: "?r1 = after_open (drop (Position (State_init ?src) + 2) ?src)" by code_simp
  have h2: "text_before name_ends ?r1 = ''raw''" by code_simp
  have h3: "[] = text_before (closes_with ''%}'') (drop 3 ?r1)" by code_simp
  have h4: "?r4 = after_close ''%}'' (drop (length ([] :: string)) (drop 3 ?r1))" by code_simp
  have h5: "''abc'' = text_before endraw_here ?r4" by code_simp
  have h6: "?rest = drop (length ''abc'') ?r4" by code_simp
  have l: "line_of ?src ?r1 = 1" "line_of ?src ?r4 = 1"
    "line_of ?src (after_open (drop 2 ?rest)) = 1"
    "after_close ''%}'' (drop 6 (after_open (drop 2 ?rest))) = []" "strip [] = []"
    by code_simp+
  have ne: "?rest \<noteq> []" by simp
  from raw_literal_up_to_endraw [OF v a h1 h2 h3 h4 h5 h6]
  have "\<exists>st' m. step Lexer0 (State_init ?src)
              = Inr (st', m,
                  [Token (line_of ?src ?r1) TOKEN_TAG ''raw'']
                  @ (if strip [] \<noteq> []
                     then [Token (line_of ?src (drop 3 ?r1)) TOKEN_EXPRESSION (strip [])] else [])
                  @ [Token (line_of ?src ?r4) TOKEN_LITERAL ''abc''])
            \<and> source st' = ?src \<and> Position st' \<le> length ?src
            \<and> drop (Position st') ?src = ?rest
            \<and> (?rest = [] \<or>
                (\<exists>st'' m''. step Lexer0 st'
                      = Inr (st'', m'',
                          [Token (line_of ?src (after_open (drop 2 ?rest))) TOKEN_TAG ''endraw''])
                    \<and> drop (Position st'') ?src
                        = after_close ''%}'' (drop 6 (after_open (drop 2 ?rest)))))"
    by (rule conjunct1)
  then have "\<exists>st' m. step Lexer0 (State_init ?src)
                  = Inr (st', m, [Token 1 TOKEN_TAG ''raw'', Token 1 TOKEN_LITERAL ''abc''])
         \<and> drop (Position st') ?src = ?rest
         \<and> (\<exists>st'' m''. step Lexer0 st' = Inr (st'', m'', [Token 1 TOKEN_TAG ''endraw''])
               \<and> drop (Position st'') ?src = [])"
    unfolding l using ne by auto
  with v a h1 h2 h3 h4 h5 h6 show ?thesis by (intro conjI)
qed

subsection \<open>Which iterations complete\<close>







end
